theory Spec2Isabelle
  imports Main "HOL-Library.Sublist"
begin

section \<open>Feature registry\<close>

text \<open>
  The registry manager (class \<^verbatim>\<open>FeatureRegistryManager\<close>) works on the parsed manifest
  \<^verbatim>\<open>features.json\<close>. A descriptor is a JSON object; \<^verbatim>\<open>validateFeature\<close> tests with
  \<^verbatim>\<open>field in feature\<close> whether each required field is present and with
  \<^verbatim>\<open>Array.isArray\<close> whether \<^verbatim>\<open>dependencies\<close> is an array, so every field is optional
  in the model and \<^verbatim>\<open>dependencies\<close> may hold something that is not an array.
  The object \<^verbatim>\<open>registry.features\<close> is the list of its own entries in the order of
  \<^verbatim>\<open>Object.entries\<close>.
\<close>

datatype dependencies_field = NotArray | Array "string list"

record feature =
  name :: "string option"
  description :: "string option"
  version :: "string option"
  dependencies :: "dependencies_field option"
  category :: "string option"

record registry =
  registry_version :: "string option"
  features :: "(string \<times> feature) list option"

text \<open>
  Every \<^verbatim>\<open>throw new Error(...)\<close> of the registry code is one constructor, carrying the
  feature ids that the message interpolates. \<open>LoadFailed\<close> is the wrapper
  \<^verbatim>\<open>Failed to load feature registry: ...\<close> of \<^verbatim>\<open>loadRegistry\<close>. \<open>TypeError\<close> is the
  exception of the runtime when a loop iterates over \<^verbatim>\<open>undefined\<close> or a member of
  \<^verbatim>\<open>undefined\<close> is read.
\<close>

datatype error =
    MissingVersion
  | MissingFeatures
  | MissingField string string
  | DependenciesNotArray string
  | UnknownDependency string string
  | CircularDependency string
  | LoadFailed error
  | FeatureNotFound string
  | TypeError

text \<open>
  \<^verbatim>\<open>features[id]\<close> is a property lookup on the object that \<^verbatim>\<open>JSON.parse\<close> returned. It
  finds an own entry; otherwise, for the names listed in \<open>objectPrototypeMembers\<close>, the
  member that every object inherits from \<^verbatim>\<open>Object.prototype\<close> (a function, or the prototype
  itself for \<^verbatim>\<open>__proto__\<close>), which is truthy and has no member \<^verbatim>\<open>dependencies\<close> or
  \<^verbatim>\<open>version\<close>; otherwise \<^verbatim>\<open>undefined\<close>. \<open>version_of\<close> is \<^verbatim>\<open>feature.version\<close> on what
  the lookup found.
\<close>

definition objectPrototypeMembers :: "string list" where
  "objectPrototypeMembers =
     [''constructor'', ''__defineGetter__'', ''__defineSetter__'', ''hasOwnProperty'',
      ''__lookupGetter__'', ''__lookupSetter__'', ''isPrototypeOf'', ''propertyIsEnumerable'',
      ''toString'', ''valueOf'', ''__proto__'', ''toLocaleString'']"

datatype property = Own feature | Inherited | Absent

definition getProperty :: "(string \<times> feature) list \<Rightarrow> string \<Rightarrow> property" where
  "getProperty fs key =
     (case map_of fs key of
        Some f \<Rightarrow> Own f
      | None \<Rightarrow> if key \<in> set objectPrototypeMembers then Inherited else Absent)"

definition version_of :: "property \<Rightarrow> string option" where
  "version_of found = (case found of Own f \<Rightarrow> version f | _ \<Rightarrow> None)"

text \<open>
  \<^verbatim>\<open>for (const dependency of feature.dependencies)\<close> in the cycle check: it runs only on the
  features of a registry that \<^verbatim>\<open>validateFeature\<close> has accepted, where the field is an array.
  The loop of \<^verbatim>\<open>resolve\<close> has no such guard on a cached registry; it reads the field through
  \<open>iterate\<close> below.
\<close>

definition deps_of :: "feature \<Rightarrow> string list" where
  "deps_of f = (case dependencies f of Some (Array ds) \<Rightarrow> ds | _ \<Rightarrow> [])"

definition validateFeature :: "string \<Rightarrow> feature \<Rightarrow> error + unit" where
  "validateFeature featureId f =
     (if name f = None then Inl (MissingField featureId ''name'')
      else if description f = None then Inl (MissingField featureId ''description'')
      else if version f = None then Inl (MissingField featureId ''version'')
      else if dependencies f = None then Inl (MissingField featureId ''dependencies'')
      else if category f = None then Inl (MissingField featureId ''category'')
      else (case dependencies f of
              Some (Array ds) \<Rightarrow> Inr ()
            | _ \<Rightarrow> Inl (DependenciesNotArray featureId)))"

fun validateFeatures :: "(string \<times> feature) list \<Rightarrow> error + unit" where
  "validateFeatures [] = Inr ()"
| "validateFeatures ((featureId, f) # rest) =
     (case validateFeature featureId f of
        Inl e \<Rightarrow> Inl e
      | Inr _ \<Rightarrow> validateFeatures rest)"

subsection \<open>Cycle detection\<close>

text \<open>
  \<^verbatim>\<open>checkCircularDependencies\<close> keeps two sets, \<^verbatim>\<open>visited\<close> and \<^verbatim>\<open>recursionStack\<close>, and
  the local function \<^verbatim>\<open>hasCycle\<close> mutates both. The model threads the pair through the
  calls. \<open>hasCycle_deps\<close> is the \<^verbatim>\<open>for\<close> loop over the dependencies of one feature; a
  thrown error leaves the loop and every enclosing call, as the exception does. A dependency
  that names an inherited member passes the test \<^verbatim>\<open>!features[dependency]\<close>, and the
  recursive call on it fails in the loop over its missing \<^verbatim>\<open>dependencies\<close>.
\<close>

type_synonym cycle_state = "string set \<times> string set"

function hasCycle :: "(string \<times> feature) list \<Rightarrow> string \<Rightarrow> cycle_state \<Rightarrow> error + (bool \<times> cycle_state)"
  and hasCycle_deps :: "(string \<times> feature) list \<Rightarrow> string \<Rightarrow> string list \<Rightarrow> cycle_state \<Rightarrow> error + cycle_state"
where
  "hasCycle fs featureId (visited, recursionStack) =
     (if featureId \<in> recursionStack then Inr (True, (visited, recursionStack))
      else if featureId \<in> visited then Inr (False, (visited, recursionStack))
      else (case getProperty fs featureId of
              Absent \<Rightarrow> Inr (False, (insert featureId visited, insert featureId recursionStack - {featureId}))
            | Inherited \<Rightarrow> Inl TypeError
            | Own f \<Rightarrow>
                (case hasCycle_deps fs featureId (deps_of f)
                        (insert featureId visited, insert featureId recursionStack) of
                   Inl e \<Rightarrow> Inl e
                 | Inr (v, s) \<Rightarrow> Inr (False, (v, s - {featureId})))))"
| "hasCycle_deps fs featureId [] st = Inr st"
| "hasCycle_deps fs featureId (dependency # rest) st =
     (if getProperty fs dependency = Absent then Inl (UnknownDependency featureId dependency)
      else (case hasCycle fs dependency st of
              Inl e \<Rightarrow> Inl e
            | Inr (True, st') \<Rightarrow> Inl (CircularDependency featureId)
            | Inr (False, st') \<Rightarrow> hasCycle_deps fs featureId rest st'))"
  by pat_completeness auto

lemma getProperty_Own: "getProperty fs key = Own f \<longleftrightarrow> map_of fs key = Some f"
  by (auto simp: getProperty_def split: option.splits)

lemma getProperty_not_Own: "getProperty fs key = Absent \<or> getProperty fs key = Inherited \<Longrightarrow> map_of fs key = None"
  by (auto simp: getProperty_def split: option.splits if_splits)

lemma getProperty_known: "map_of fs key \<noteq> None \<Longrightarrow> \<exists>f. getProperty fs key = Own f \<and> map_of fs key = Some f"
  by (auto simp: getProperty_def)

lemma hasCycle_visited_mono:
  "hasCycle_hasCycle_deps_dom (Inl (fs, x, st)) \<Longrightarrow> hasCycle fs x st = Inr (b, st') \<Longrightarrow> fst st \<subseteq> fst st'"
  "hasCycle_hasCycle_deps_dom (Inr (fs, y, ds, st)) \<Longrightarrow> hasCycle_deps fs y ds st = Inr st'' \<Longrightarrow> fst st \<subseteq> fst st''"
proof (induct fs x st and fs y ds st arbitrary: b st' and st'' rule: hasCycle_hasCycle_deps.pinduct)
  case (1 fs featureId visited recursionStack)
  show ?case
  proof (cases "featureId \<in> recursionStack \<or> featureId \<in> visited")
    case True
    then show ?thesis using "1.prems" "1.hyps"(1) by (auto simp: hasCycle.psimps split: if_splits)
  next
    case False
    show ?thesis
    proof (cases "getProperty fs featureId")
      case Absent
      then show ?thesis using False "1.prems" "1.hyps"(1) by (auto simp: hasCycle.psimps)
    next
      case Inherited
      then show ?thesis using False "1.prems" "1.hyps"(1) by (auto simp: hasCycle.psimps)
    next
      case (Own f)
      from False Own "1.prems" "1.hyps"(1) obtain v s where
        r: "hasCycle_deps fs featureId (deps_of f) (insert featureId visited, insert featureId recursionStack) = Inr (v, s)"
        and st': "st' = (v, s - {featureId})"
        by (auto simp: hasCycle.psimps split: sum.splits prod.splits)
      from "1.hyps"(2)[OF _ _ Own r] False have "insert featureId visited \<subseteq> v" by simp
      then show ?thesis using st' by auto
    qed
  qed
next
  case (2 fs featureId st)
  then show ?case by (simp add: hasCycle_deps.psimps)
next
  case (3 fs featureId dependency rest st)
  from "3.prems" "3.hyps"(1) have known: "getProperty fs dependency \<noteq> Absent"
    by (auto simp: hasCycle_deps.psimps split: if_splits)
  from "3.prems" "3.hyps"(1) known obtain st1 where
    r1: "hasCycle fs dependency st = Inr (False, st1)" and r2: "hasCycle_deps fs featureId rest st1 = Inr st''"
    by (auto simp: hasCycle_deps.psimps split: sum.splits prod.splits bool.splits)
  have "fst st \<subseteq> fst st1" using "3.hyps"(2)[OF known r1] .
  moreover have "fst st1 \<subseteq> fst st''" using "3.hyps"(3)[OF known r1 refl refl r2] .
  ultimately show ?case by blast
qed

termination hasCycle
proof (relation "inv_image (less_than <*lex*> less_than)
    (\<lambda>x. case x of
        Inl (fs, x, st) \<Rightarrow> (card (fst ` set fs - fst st), 0)
      | Inr (fs, y, ds, st) \<Rightarrow> (card (fst ` set fs - fst st), Suc (length ds)))", goal_cases)
  case 1
  then show ?case by auto
next
  case (2 fs featureId visited recursionStack f)
  then have "map_of fs featureId = Some f" by (simp add: getProperty_Own)
  then have "featureId \<in> fst ` set fs" by (metis map_of_eq_None_iff option.distinct(1))
  then have "card (fst ` set fs - insert featureId visited) < card (fst ` set fs - visited)"
    using 2 by (intro psubset_card_mono) auto
  then show ?case by simp
next
  case (3 fs featureId dependency rest st)
  then show ?case by simp
next
  case (4 fs featureId dependency rest st x2 x y)
  then have "fst st \<subseteq> fst y" using hasCycle_visited_mono(1) by blast
  then have "card (fst ` set fs - fst y) \<le> card (fst ` set fs - fst st)"
    by (intro card_mono) auto
  then show ?case by auto
qed

text \<open>
  The outer loop \<^verbatim>\<open>for (const featureId of Object.keys(features))\<close>, which starts a
  traversal at every feature not visited so far and ignores the value \<^verbatim>\<open>hasCycle\<close> returns.
\<close>

fun checkFrom :: "(string \<times> feature) list \<Rightarrow> string list \<Rightarrow> cycle_state \<Rightarrow> error + cycle_state" where
  "checkFrom fs [] st = Inr st"
| "checkFrom fs (featureId # rest) st =
     (if featureId \<in> fst st then checkFrom fs rest st
      else (case hasCycle fs featureId st of
              Inl e \<Rightarrow> Inl e
            | Inr (_, st') \<Rightarrow> checkFrom fs rest st'))"

definition checkCircularDependencies :: "(string \<times> feature) list \<Rightarrow> error + unit" where
  "checkCircularDependencies fs =
     (case checkFrom fs (map fst fs) ({}, {}) of
        Inl e \<Rightarrow> Inl e
      | Inr _ \<Rightarrow> Inr ())"

definition validateRegistry :: "registry \<Rightarrow> error + unit" where
  "validateRegistry reg =
     (if registry_version reg = None \<or> registry_version reg = Some [] then Inl MissingVersion
      else (case features reg of
              None \<Rightarrow> Inl MissingFeatures
            | Some fs \<Rightarrow>
                (case validateFeatures fs of
                   Inl e \<Rightarrow> Inl e
                 | Inr _ \<Rightarrow> checkCircularDependencies fs)))"

text \<open>
  \<^verbatim>\<open>loadRegistry\<close>. The state of the manager is the field \<^verbatim>\<open>this.registry\<close> (\<open>None\<close> is
  \<^verbatim>\<open>null\<close>); \<open>parsed\<close> is the object that \<^verbatim>\<open>JSON.parse\<close> returns for the registry file.
  A registry that is already held is returned as it is. Otherwise the parsed object is
  assigned to the field before it is validated, and it stays there when the validation
  throws; the error of the validation is wrapped.
\<close>

type_synonym manager = "registry option"

definition loadRegistry :: "registry \<Rightarrow> manager \<Rightarrow> (error + registry) \<times> manager" where
  "loadRegistry parsed cached =
     (case cached of
        Some registry \<Rightarrow> (Inr registry, cached)
      | None \<Rightarrow>
          (case validateRegistry parsed of
             Inl e \<Rightarrow> (Inl (LoadFailed e), Some parsed)
           | Inr _ \<Rightarrow> (Inr parsed, Some parsed)))"

definition features_of :: "registry \<Rightarrow> (string \<times> feature) list" where
  "features_of reg = (case features reg of None \<Rightarrow> [] | Some fs \<Rightarrow> fs)"

subsection \<open>Dependency resolution\<close>

text \<open>
  \<^verbatim>\<open>resolveDependencies\<close> keeps the set \<^verbatim>\<open>visited\<close> and the array \<^verbatim>\<open>resolved\<close>; the local
  function \<^verbatim>\<open>resolve\<close> mutates both and returns nothing. \<open>resolve_deps\<close> is its
  \<^verbatim>\<open>for\<close> loop. \<open>iterate\<close> is what \<^verbatim>\<open>for ... of\<close> gets from the member
  \<^verbatim>\<open>dependencies\<close>: the elements of an array, and a type error for a missing member or a
  value that cannot be iterated. The registry may come from the cache without having
  passed the validation, so \<^verbatim>\<open>registry.features\<close> may be missing, which is a type error as
  well.
\<close>

type_synonym resolve_state = "string set \<times> string list"

definition iterate :: "dependencies_field option \<Rightarrow> string list option" where
  "iterate d = (case d of Some (Array ds) \<Rightarrow> Some ds | _ \<Rightarrow> None)"

function resolve :: "(string \<times> feature) list \<Rightarrow> string \<Rightarrow> resolve_state \<Rightarrow> error + resolve_state"
  and resolve_deps :: "(string \<times> feature) list \<Rightarrow> string list \<Rightarrow> resolve_state \<Rightarrow> error + resolve_state"
where
  "resolve fs currentFeatureId (visited, resolved) =
     (if currentFeatureId \<in> visited then Inr (visited, resolved)
      else (case getProperty fs currentFeatureId of
              Absent \<Rightarrow> Inr (insert currentFeatureId visited, resolved)
            | Inherited \<Rightarrow> Inl TypeError
            | Own currentFeature \<Rightarrow>
                (case iterate (dependencies currentFeature) of
                   None \<Rightarrow> Inl TypeError
                 | Some ds \<Rightarrow>
                     (case resolve_deps fs ds (insert currentFeatureId visited, resolved) of
                        Inl e \<Rightarrow> Inl e
                      | Inr (v, r) \<Rightarrow>
                          Inr (v, if currentFeatureId \<in> set r then r else r @ [currentFeatureId])))))"
| "resolve_deps fs [] st = Inr st"
| "resolve_deps fs (dependency # rest) st =
     (case resolve fs dependency st of
        Inl e \<Rightarrow> Inl e
      | Inr st' \<Rightarrow> resolve_deps fs rest st')"
  by pat_completeness auto

lemma resolve_visited_mono:
  "resolve_resolve_deps_dom (Inl (fs, x, st)) \<Longrightarrow> resolve fs x st = Inr st' \<Longrightarrow> fst st \<subseteq> fst st'"
  "resolve_resolve_deps_dom (Inr (fs, ds, st)) \<Longrightarrow> resolve_deps fs ds st = Inr st'' \<Longrightarrow> fst st \<subseteq> fst st''"
proof (induct fs x st and fs ds st arbitrary: st' and st'' rule: resolve_resolve_deps.pinduct)
  case (1 fs currentFeatureId visited resolved)
  show ?case
  proof (cases "currentFeatureId \<in> visited")
    case True
    then show ?thesis using "1.prems" "1.hyps"(1) by (simp add: resolve.psimps)
  next
    case False
    show ?thesis
    proof (cases "getProperty fs currentFeatureId")
      case Absent
      then show ?thesis using False "1.prems" "1.hyps"(1) by (auto simp: resolve.psimps)
    next
      case Inherited
      then show ?thesis using False "1.prems" "1.hyps"(1) by (auto simp: resolve.psimps)
    next
      case (Own f)
      from False Own "1.prems" "1.hyps"(1) obtain ds v r where
        it: "iterate (dependencies f) = Some ds"
        and rd: "resolve_deps fs ds (insert currentFeatureId visited, resolved) = Inr (v, r)"
        and st': "fst st' = v"
        by (auto simp: resolve.psimps split: option.splits sum.splits prod.splits)
      from "1.hyps"(2)[OF False Own it rd] have "insert currentFeatureId visited \<subseteq> v" by simp
      then show ?thesis using st' by auto
    qed
  qed
next
  case (2 fs st)
  then show ?case by (simp add: resolve_deps.psimps)
next
  case (3 fs dependency rest st)
  from "3.prems" "3.hyps"(1) obtain st1 where
    r1: "resolve fs dependency st = Inr st1" and r2: "resolve_deps fs rest st1 = Inr st''"
    by (auto simp: resolve_deps.psimps split: sum.splits)
  have "fst st \<subseteq> fst st1" using "3.hyps"(2)[OF r1] .
  moreover have "fst st1 \<subseteq> fst st''" using "3.hyps"(3)[OF r1 r2] .
  ultimately show ?case by blast
qed

termination resolve
proof (relation "inv_image (less_than <*lex*> less_than)
    (\<lambda>x. case x of
        Inl (fs, x, st) \<Rightarrow> (card (fst ` set fs - fst st), 0)
      | Inr (fs, ds, st) \<Rightarrow> (card (fst ` set fs - fst st), Suc (length ds)))", goal_cases)
  case 1
  then show ?case by auto
next
  case (2 fs currentFeatureId visited resolved f ds)
  then have "map_of fs currentFeatureId = Some f" by (simp add: getProperty_Own)
  then have "currentFeatureId \<in> fst ` set fs" by (metis map_of_eq_None_iff option.distinct(1))
  then have "card (fst ` set fs - insert currentFeatureId visited) < card (fst ` set fs - visited)"
    using 2 by (intro psubset_card_mono) auto
  then show ?case by simp
next
  case (3 fs dependency rest st)
  then show ?case by simp
next
  case (4 fs dependency rest st st')
  then have "fst st \<subseteq> fst st'" using resolve_visited_mono(1) by blast
  then have "card (fst ` set fs - fst st') \<le> card (fst ` set fs - fst st)"
    by (intro card_mono) auto
  then show ?case by auto
qed

definition resolveDependencies :: "registry \<Rightarrow> manager \<Rightarrow> string \<Rightarrow> (error + string list) \<times> manager" where
  "resolveDependencies parsed cached featureId =
     (case loadRegistry parsed cached of
        (Inl e, cached') \<Rightarrow> (Inl e, cached')
      | (Inr registry, cached') \<Rightarrow>
          (case features registry of
             None \<Rightarrow> (Inl TypeError, cached')
           | Some fs \<Rightarrow>
               (if getProperty fs featureId = Absent then (Inl (FeatureNotFound featureId), cached')
                else (case resolve fs featureId ({}, []) of
                        Inl e \<Rightarrow> (Inl e, cached')
                      | Inr (visited, resolved) \<Rightarrow> (Inr resolved, cached')))))"

subsection \<open>Notions used in the statements about the registry\<close>

text \<open>
  \<open>dependsOn fs\<close> is the dependency graph: an edge from each feature to each id in its
  \<^verbatim>\<open>dependencies\<close>. A feature lies on a cycle when the transitive closure relates it to
  itself.
\<close>

definition dependsOn :: "(string \<times> feature) list \<Rightarrow> (string \<times> string) set" where
  "dependsOn fs = {(a, b). \<exists>f. map_of fs a = Some f \<and> b \<in> set (deps_of f)}"

definition missingRequiredField :: "feature \<Rightarrow> bool" where
  "missingRequiredField f \<longleftrightarrow>
     name f = None \<or> description f = None \<or> version f = None \<or>
     dependencies f = None \<or> category f = None"

text \<open>
  Three concrete manifests: the chain a, b, c of the specification's scenario, a cycle
  between a and b, and the same cycle listed after a feature c that names an unknown
  dependency.
\<close>

definition chainRegistry :: registry where
  "chainRegistry = \<lparr>registry_version = Some ''1.0.0'', features = Some
     [(''a'', \<lparr>name = Some ''A'', description = Some ''d'', version = Some ''1'', dependencies = Some (Array []), category = Some ''c''\<rparr>),
      (''b'', \<lparr>name = Some ''B'', description = Some ''d'', version = Some ''1'', dependencies = Some (Array [''a'']), category = Some ''c''\<rparr>),
      (''c'', \<lparr>name = Some ''C'', description = Some ''d'', version = Some ''1'', dependencies = Some (Array [''b'']), category = Some ''c''\<rparr>)]\<rparr>"

definition twoCycle :: "(string \<times> feature) list" where
  "twoCycle =
     [(''a'', \<lparr>name = Some ''A'', description = Some ''d'', version = Some ''1'', dependencies = Some (Array [''b'']), category = Some ''c''\<rparr>),
      (''b'', \<lparr>name = Some ''B'', description = Some ''d'', version = Some ''1'', dependencies = Some (Array [''a'']), category = Some ''c''\<rparr>)]"

definition cyclicWithUnknown :: "(string \<times> feature) list" where
  "cyclicWithUnknown =
     [(''c'', \<lparr>name = Some ''C'', description = Some ''d'', version = Some ''1'', dependencies = Some (Array [''zzz'']), category = Some ''c''\<rparr>),
      (''a'', \<lparr>name = Some ''A'', description = Some ''d'', version = Some ''1'', dependencies = Some (Array [''b'']), category = Some ''c''\<rparr>),
      (''b'', \<lparr>name = Some ''B'', description = Some ''d'', version = Some ''1'', dependencies = Some (Array [''a'']), category = Some ''c''\<rparr>)]"

section \<open>Installer\<close>

subsection \<open>Paths\<close>

text \<open>
  A path is the list of its segments, relative to the project root and normalised (no
  \<^verbatim>\<open>.\<close> or \<^verbatim>\<open>..\<close> segment), so \<^verbatim>\<open>path.join(dir, name)\<close> appends a segment, \<^verbatim>\<open>path.dirname\<close>
  drops the last one (\<^verbatim>\<open>.\<close> is the empty list) and \<^verbatim>\<open>path.relative(projectRoot, p)\<close> is
  \<open>p\<close> itself. \<open>extname\<close>, \<open>basename\<close> and \<open>endsWith\<close> follow Node's \<^verbatim>\<open>path.extname\<close>,
  \<^verbatim>\<open>path.basename(p, ext)\<close> and \<^verbatim>\<open>String.prototype.endsWith\<close> on one segment: the extension
  starts at the last dot of the segment unless that dot is its first character or the
  segment is \<^verbatim>\<open>..\<close>; the suffix is removed from the base name when it is a proper suffix.
\<close>

type_synonym path = "string list"

definition extname :: "string \<Rightarrow> string" where
  "extname seg =
     (let suffix = rev (takeWhile (\<lambda>c. c \<noteq> CHR ''.'') (rev seg)) in
      if CHR ''.'' \<notin> set seg then []
      else if Suc (length suffix) = length seg then []
      else if seg = ''..'' then []
      else CHR ''.'' # suffix)"

definition endsWith :: "string \<Rightarrow> string \<Rightarrow> bool" where
  "endsWith s searchString \<longleftrightarrow>
     length searchString \<le> length s \<and> drop (length s - length searchString) s = searchString"

definition basename :: "path \<Rightarrow> string \<Rightarrow> string" where
  "basename p ext =
     (case p of
        [] \<Rightarrow> []
      | _ \<Rightarrow>
          (let seg = last p in
           if ext \<noteq> [] \<and> length ext < length seg \<and> endsWith seg ext
           then take (length seg - length ext) seg
           else seg))"

definition dirname :: "path \<Rightarrow> path" where
  "dirname p = butlast p"

definition join :: "path \<Rightarrow> string \<Rightarrow> path" where
  "join dir file = dir @ [file]"

fun render :: "path \<Rightarrow> string" where
  "render [] = []"
| "render [seg] = seg"
| "render (seg # rest) = seg @ ''/'' @ render rest"

subsection \<open>Configuration\<close>

text \<open>
  \<^verbatim>\<open>SupaBootstrapConfig\<close> and \<^verbatim>\<open>InstalledFeature\<close> of \<^verbatim>\<open>utils/types.ts\<close>. \<^verbatim>\<open>sourceDir\<close> is the
  directory below the project root that \<^verbatim>\<open>getSupabasePath\<close> resolves. The version of an
  installed feature is copied from the descriptor, where the field is optional.
\<close>

record installedFeature =
  installed_version :: "string option"
  installedAt :: string
  files :: "path list"

record config =
  config_version :: string
  sourceDir :: path
  filePrefix :: "string option"
  installedFeatures :: "string \<rightharpoonup> installedFeature"

text \<open>
  \<^verbatim>\<open>ConfigManager.applyFilePrefix\<close>; \<^verbatim>\<open>!config.filePrefix\<close> holds for a missing and for an
  empty prefix.
\<close>

definition applyFilePrefix :: "path \<Rightarrow> config \<Rightarrow> path" where
  "applyFilePrefix filename config =
     (case filePrefix config of
        None \<Rightarrow> filename
      | Some pre \<Rightarrow>
          if pre = [] then filename
          else
            (let ext = extname (basename filename []);
                 base = basename filename ext;
                 dir = dirname filename;
                 prefixedBase = pre @ base
             in join dir (prefixedBase @ ext)))"

subsection \<open>The project directory and the external tools\<close>

text \<open>
  \<^verbatim>\<open>ConflictingFile\<close> and \<^verbatim>\<open>InstallationResult\<close> of \<^verbatim>\<open>utils/types.ts\<close>. The three arrays that
  \<^verbatim>\<open>installFeature\<close> fills form the record \<open>outcome\<close>; the result adds \<^verbatim>\<open>success\<close>, and
  the state of a run adds the project directory.
\<close>

datatype action = Overwrite | Skip

record conflictingFile =
  path :: path
  exists :: bool
  action :: "action option"

datatype cli_call = MigrationNew string | FunctionsNew string

text \<open>
  The state outside the program: the files and directories of the project, the places where
  the file system refuses to write or read, the names for which the scaffold command fails,
  the clock of the scaffold tool, the log of the scaffold commands that were run, and the
  configuration file.
\<close>

record world =
  fileContent :: "path \<rightharpoonup> string"
  directories :: "path set"
  unwritable :: "path set"
  unreadable :: "path set"
  cliBroken :: "string set"
  clock :: nat
  cliCalls :: "cli_call list"
  configFile :: "config option"
  configUnwritable :: bool

record outcome =
  installedFiles :: "path list"
  skippedFiles :: "path list"
  errors :: "string list"

record installationResult = outcome +
  success :: bool

record run = outcome +
  disk :: world

text \<open>
  The template tree of one feature, as \<^verbatim>\<open>FileOperations.getFilesInDirectory\<close> and
  \<^verbatim>\<open>fs.readdirSync\<close> list it: each file with its path relative to its directory and its
  content (\<open>None\<close> when reading it fails); a directory that does not exist is \<open>None\<close>.
\<close>

type_synonym templateFile = "path \<times> string option"

record featureFiles =
  schemas :: "templateFile list option"
  migrations :: "templateFile list option"
  functionDirs :: "(string \<times> templateFile list) list option"
  seed :: "templateFile list option"

text \<open>
  \<^verbatim>\<open>FileOperations\<close>. The installer always copies with \<^verbatim>\<open>overwrite: true\<close> and
  \<^verbatim>\<open>createDirs: true\<close>, so a copy fails only when the source cannot be read or the
  destination cannot be written; the parent directories are created first.
\<close>

definition fileExists :: "world \<Rightarrow> path \<Rightarrow> bool" where
  "fileExists w p \<longleftrightarrow> fileContent w p \<noteq> None"

definition directoryExists :: "world \<Rightarrow> path \<Rightarrow> bool" where
  "directoryExists w p \<longleftrightarrow> p \<in> directories w"

definition mkdirs :: "path \<Rightarrow> world \<Rightarrow> world" where
  "mkdirs dir w = w\<lparr>directories := directories w \<union> set (prefixes dir)\<rparr>"

definition readError :: string where
  "readError = ''cannot read the file''"

definition writeError :: "path \<Rightarrow> string" where
  "writeError dest = ''cannot write to '' @ render dest"

definition copyError :: "string \<Rightarrow> string" where
  "copyError e = ''Failed to copy file: '' @ e"

definition copyFile :: "string option \<Rightarrow> path \<Rightarrow> world \<Rightarrow> string + world" where
  "copyFile src dest w =
     (case src of
        None \<Rightarrow> Inl (copyError readError)
      | Some content \<Rightarrow>
          if dest \<in> unwritable w then Inl (copyError (writeError dest))
          else Inr ((mkdirs (dirname dest) w)\<lparr>fileContent := (fileContent w)(dest \<mapsto> content)\<rparr>))"

definition writeFile :: "path \<Rightarrow> string \<Rightarrow> world \<Rightarrow> string + world" where
  "writeFile filePath content w =
     (if filePath \<in> unwritable w then Inl (''Failed to write file: '' @ writeError filePath)
      else Inr ((mkdirs (dirname filePath) w)\<lparr>fileContent := (fileContent w)(filePath \<mapsto> content)\<rparr>))"

definition readFile :: "world \<Rightarrow> path \<Rightarrow> string + string" where
  "readFile w filePath =
     (case fileContent w filePath of
        None \<Rightarrow> Inl (''Failed to read file: '' @ readError)
      | Some content \<Rightarrow>
          if filePath \<in> unreadable w then Inl (''Failed to read file: '' @ readError)
          else Inr content)"

text \<open>
  \<^verbatim>\<open>SupabaseCLI.getMigrationsPath\<close> and \<^verbatim>\<open>getFunctionsPath\<close>, relative to the project root.
\<close>

definition getMigrationsPath :: path where
  "getMigrationsPath = [''supabase'', ''migrations'']"

definition getFunctionsPath :: path where
  "getFunctionsPath = [''supabase'', ''functions'']"

fun digits :: "nat \<Rightarrow> string" where
  "digits n = (if n < 10 then [''0123456789'' ! n] else digits (n div 10) @ [''0123456789'' ! (n mod 10)])"

declare digits.simps [simp del]

text \<open>
  Modelled from the spec: the synchronous \<^verbatim>\<open>createMigration\<close> that the installer calls is
  missing from the sources (\<^verbatim>\<open>core/supabase-cli.ts\<close> holds an asynchronous variant, whose
  promise the installer could not pass to \<^verbatim>\<open>path.join\<close>). The scaffold tool returns the name
  of a new file in the migrations directory whose identifier is taken from its clock; a
  failure of the command, a name collision and a disk error are failures of the call. The
  file it creates is empty.
\<close>

definition createMigration :: "string \<Rightarrow> world \<Rightarrow> (string + string) \<times> world" where
  "createMigration migrationName w =
     (let w' = w\<lparr>cliCalls := cliCalls w @ [MigrationNew migrationName], clock := Suc (clock w)\<rparr>;
          newFile = digits (clock w) @ ''_'' @ migrationName @ ''.sql'';
          newPath = join getMigrationsPath newFile
      in if migrationName \<in> cliBroken w then (Inl ''Failed to create migration: the command failed'', w')
         else if fileContent w newPath \<noteq> None \<or> newPath \<in> unwritable w
           then (Inl ''Failed to create migration: the file exists or cannot be written'', w')
         else (Inr newFile,
               (mkdirs getMigrationsPath w')\<lparr>fileContent := (fileContent w)(newPath \<mapsto> [])\<rparr>))"

text \<open>
  Modelled from the spec: the synchronous \<^verbatim>\<open>createFunction\<close> is missing from the sources in
  the same way. The scaffold tool creates the directory of the function with a boilerplate
  \<^verbatim>\<open>index.ts\<close>, or fails.
\<close>

definition createFunction :: "string \<Rightarrow> world \<Rightarrow> (string + string) \<times> world" where
  "createFunction functionName w =
     (let w' = w\<lparr>cliCalls := cliCalls w @ [FunctionsNew functionName]\<rparr>;
          dir = join getFunctionsPath functionName
      in if functionName \<in> cliBroken w then (Inl ''Failed to create function: the command failed'', w')
         else (Inr functionName,
               (mkdirs dir w')\<lparr>fileContent := (fileContent w)(join dir ''index.ts'' \<mapsto> ''// scaffold'')\<rparr>))"

text \<open>
  \<^verbatim>\<open>ConfigManager.saveConfig\<close>: the validation against the JSON schema (which is not part of
  the sources) and the write are one step, which fails where the environment says so.
\<close>

definition saveConfig :: "config \<Rightarrow> world \<Rightarrow> string + world" where
  "saveConfig config w =
     (if configUnwritable w then Inl ''Failed to save configuration''
      else Inr (w\<lparr>configFile := Some config\<rparr>))"

subsection \<open>The stages of an installation\<close>

definition applyPrefix :: "config \<Rightarrow> path \<Rightarrow> path" where
  "applyPrefix config fileName = applyFilePrefix fileName config"

definition getTargetPath :: "config \<Rightarrow> string \<Rightarrow> path \<Rightarrow> path" where
  "getTargetPath config type fileName =
     (let prefixedFileName = applyPrefix config fileName
      in sourceDir config @ [type] @ prefixedFileName)"

definition isSkip :: "conflictingFile option \<Rightarrow> bool" where
  "isSkip conflictResolution \<longleftrightarrow>
     (case conflictResolution of None \<Rightarrow> False | Some c \<Rightarrow> action c = Some Skip)"

definition isOverwrite :: "conflictingFile option \<Rightarrow> bool" where
  "isOverwrite conflictResolution \<longleftrightarrow>
     (case conflictResolution of None \<Rightarrow> False | Some c \<Rightarrow> action c = Some Overwrite)"

text \<open>
  \<^verbatim>\<open>installSchemas\<close>. The loop has no \<^verbatim>\<open>try\<close>: an exception of \<^verbatim>\<open>copyFile\<close> leaves the loop
  and the stage, with the arrays as they are at that moment. The first component of the
  result is the message of the exception, if one was thrown.
\<close>

fun installSchemaFiles :: "config \<Rightarrow> conflictingFile list \<Rightarrow> templateFile list \<Rightarrow> run \<Rightarrow> string option \<times> run" where
  "installSchemaFiles config conflictResolutions [] r = (None, r)"
| "installSchemaFiles config conflictResolutions ((relativePath, content) # rest) r =
     (let relativeTargetPath = getTargetPath config ''schemas'' relativePath;
          conflictResolution = find (\<lambda>c. path c = relativeTargetPath) conflictResolutions
      in if isSkip conflictResolution
         then installSchemaFiles config conflictResolutions rest
                (r\<lparr>skippedFiles := skippedFiles r @ [relativeTargetPath]\<rparr>)
         else (case copyFile content relativeTargetPath (disk r) of
                 Inl e \<Rightarrow> (Some e, r)
               | Inr w \<Rightarrow> installSchemaFiles config conflictResolutions rest
                           (r\<lparr>disk := w, installedFiles := installedFiles r @ [relativeTargetPath]\<rparr>)))"

definition installSchemas :: "config \<Rightarrow> conflictingFile list \<Rightarrow> featureFiles \<Rightarrow> run \<Rightarrow> string option \<times> run" where
  "installSchemas config conflictResolutions tpl r =
     (case schemas tpl of
        None \<Rightarrow> (None, r)
      | Some schemaFiles \<Rightarrow> installSchemaFiles config conflictResolutions schemaFiles r)"

text \<open>
  \<^verbatim>\<open>installMigrations\<close>. The body of the loop is one \<^verbatim>\<open>try\<close> block: an exception is turned
  into an entry of \<^verbatim>\<open>errors\<close> and the loop goes on.
\<close>

definition isSql :: "templateFile \<Rightarrow> bool" where
  "isSql file \<longleftrightarrow> endsWith (basename (fst file) []) ''.sql''"

definition migrationError :: "path \<Rightarrow> string \<Rightarrow> string" where
  "migrationError migrationFile e = ''Failed to install migration from '' @ render migrationFile @ '': '' @ e"

definition installMigration :: "config \<Rightarrow> templateFile \<Rightarrow> run \<Rightarrow> run" where
  "installMigration config file r =
     (let migrationFile = fst file;
          failed = (\<lambda>e w. r\<lparr>disk := w, errors := errors r @ [migrationError migrationFile e]\<rparr>)
      in case snd file of
           None \<Rightarrow> failed (''Failed to read file: '' @ readError) (disk r)
         | Some migrationContent \<Rightarrow>
             (let migrationName = applyPrefix config [basename migrationFile ''.sql'']
              in case createMigration (render migrationName) (disk r) of
                   (Inl e, w1) \<Rightarrow> failed e w1
                 | (Inr newMigrationFile, w1) \<Rightarrow>
                     (let newMigrationPath = join getMigrationsPath newMigrationFile
                      in case writeFile newMigrationPath migrationContent w1 of
                           Inl e \<Rightarrow> failed e w1
                         | Inr w2 \<Rightarrow> r\<lparr>disk := w2,
                                      installedFiles := installedFiles r @ [newMigrationPath]\<rparr>)))"

definition installMigrations :: "config \<Rightarrow> featureFiles \<Rightarrow> run \<Rightarrow> run" where
  "installMigrations config tpl r =
     (case migrations tpl of
        None \<Rightarrow> r
      | Some allFiles \<Rightarrow> foldl (\<lambda>r file. installMigration config file r) r (filter isSql allFiles))"

text \<open>
  \<^verbatim>\<open>installFunctions\<close>. \<open>copyFunctionFiles\<close> is the inner loop over the files of one
  function; its exception is caught by the \<^verbatim>\<open>try\<close> block around the body of the outer
  loop.
\<close>

fun copyFunctionFiles :: "path \<Rightarrow> templateFile list \<Rightarrow> run \<Rightarrow> string option \<times> run" where
  "copyFunctionFiles targetFunctionPath [] r = (None, r)"
| "copyFunctionFiles targetFunctionPath ((relativeFunctionPath, content) # rest) r =
     (let targetFile = targetFunctionPath @ relativeFunctionPath
      in case copyFile content targetFile (disk r) of
           Inl e \<Rightarrow> (Some e, r)
         | Inr w \<Rightarrow> copyFunctionFiles targetFunctionPath rest
                     (r\<lparr>disk := w, installedFiles := installedFiles r @ [targetFile]\<rparr>))"

definition functionError :: "string \<Rightarrow> string \<Rightarrow> string" where
  "functionError functionName e = ''Failed to install function '' @ functionName @ '': '' @ e"

definition installFunction :: "config \<Rightarrow> conflictingFile list \<Rightarrow> string \<times> templateFile list \<Rightarrow> run \<Rightarrow> run" where
  "installFunction config conflictResolutions fn r =
     (let functionName = fst fn;
          sourceFunctionFiles = snd fn;
          prefixedFunctionName = applyPrefix config [functionName];
          relativeTargetPath = getFunctionsPath @ prefixedFunctionName;
          conflictResolution = find (\<lambda>c. path c = relativeTargetPath) conflictResolutions;
          failed = (\<lambda>e r'. r'\<lparr>errors := errors r' @ [functionError functionName e]\<rparr>)
      in if isSkip conflictResolution
         then r\<lparr>skippedFiles := skippedFiles r @ [relativeTargetPath]\<rparr>
         else if directoryExists (disk r) relativeTargetPath \<and> \<not> isOverwrite conflictResolution
         then r\<lparr>skippedFiles := skippedFiles r @ [relativeTargetPath]\<rparr>
         else
           (let isOverwriting = isOverwrite conflictResolution;
                created =
                  (if \<not> directoryExists (disk r) relativeTargetPath \<and> \<not> isOverwriting
                   then createFunction (render prefixedFunctionName) (disk r)
                   else (Inr (render prefixedFunctionName), disk r))
            in case created of
                 (Inl e, w1) \<Rightarrow> failed e (r\<lparr>disk := w1\<rparr>)
               | (Inr _, w1) \<Rightarrow>
                   (case copyFunctionFiles relativeTargetPath sourceFunctionFiles (r\<lparr>disk := w1\<rparr>) of
                      (Some e, r') \<Rightarrow> failed e r'
                    | (None, r') \<Rightarrow> r')))"

definition installFunctions :: "config \<Rightarrow> conflictingFile list \<Rightarrow> featureFiles \<Rightarrow> run \<Rightarrow> run" where
  "installFunctions config conflictResolutions tpl r =
     (case functionDirs tpl of
        None \<Rightarrow> r
      | Some dirs \<Rightarrow> foldl (\<lambda>r fn. installFunction config conflictResolutions fn r) r dirs)"

text \<open>
  \<^verbatim>\<open>installSeeds\<close>. The path of the shared seed file comes from \<^verbatim>\<open>SupabaseCLI.getSeedPath\<close>,
  which is missing from the sources; it is the parameter \<open>targetSeedPath\<close>. Reading the
  existing seed file happens outside every \<^verbatim>\<open>try\<close> block.
\<close>

definition newline :: string where
  "newline = [CHR 0x0A]"

definition beginMarker :: "string \<Rightarrow> string" where
  "beginMarker featureId = ''-- BEGIN: '' @ featureId @ '' seeds''"

definition endMarker :: "string \<Rightarrow> string" where
  "endMarker featureId = ''-- END: '' @ featureId @ '' seeds''"

definition fromLine :: "path \<Rightarrow> string" where
  "fromLine seedFile = ''-- From: '' @ basename seedFile []"

definition seedReadError :: "path \<Rightarrow> string \<Rightarrow> string" where
  "seedReadError seedFile e = ''Failed to read seed file '' @ render seedFile @ '': '' @ e"

definition seedWriteError :: "string \<Rightarrow> string" where
  "seedWriteError e = ''Failed to write seed file: '' @ e"

fun collectSeeds :: "templateFile list \<Rightarrow> string \<times> string list \<Rightarrow> string \<times> string list" where
  "collectSeeds [] acc = acc"
| "collectSeeds ((seedFile, source) # rest) (seedContent, errs) =
     (case source of
        None \<Rightarrow> collectSeeds rest
          (seedContent, errs @ [seedReadError seedFile (''Failed to read file: '' @ readError)])
      | Some content \<Rightarrow> collectSeeds rest
          (seedContent @ fromLine seedFile @ newline @ content @
             (if \<not> endsWith content newline then newline else []) @ newline,
           errs))"

definition includesText :: "string \<Rightarrow> string \<Rightarrow> bool" where
  "includesText s searchString \<longleftrightarrow> sublist searchString s"

definition installSeeds :: "path \<Rightarrow> string \<Rightarrow> featureFiles \<Rightarrow> run \<Rightarrow> string option \<times> run" where
  "installSeeds targetSeedPath featureId tpl r =
     (case seed tpl of
        None \<Rightarrow> (None, r)
      | Some allFiles \<Rightarrow>
          (let seedFiles = filter isSql allFiles
           in if seedFiles = [] then (None, r)
              else
                (case (if fileExists (disk r) targetSeedPath then readFile (disk r) targetSeedPath else Inr []) of
                   Inl e \<Rightarrow> (Some e, r)
                 | Inr existingSeedContent \<Rightarrow>
                     (let featureCommentBlock = beginMarker featureId
                      in if includesText existingSeedContent featureCommentBlock then (None, r)
                         else
                           (case collectSeeds seedFiles (newline @ featureCommentBlock @ newline, errors r) of
                              (collected, errs) \<Rightarrow>
                                (let seedContent = collected @ endMarker featureId @ newline;
                                     finalContent = existingSeedContent @ seedContent
                                 in case writeFile targetSeedPath finalContent (disk r) of
                                      Inl e \<Rightarrow> (None, r\<lparr>errors := errs @ [seedWriteError e]\<rparr>)
                                    | Inr w \<Rightarrow> (None, r\<lparr>disk := w, errors := errs,
                                                 installedFiles := installedFiles r @ [targetSeedPath]\<rparr>)))))))"

text \<open>
  \<^verbatim>\<open>updateInstalledFeatures\<close>: the record is stored in the configuration object first, then
  the configuration is saved. \<open>now\<close> is the value of \<^verbatim>\<open>new Date().toISOString()\<close>.
  \<^verbatim>\<open>getFeature\<close> is the property lookup \<^verbatim>\<open>registry.features[featureId] || null\<close>, so an id
  that names an inherited member is taken for a feature, one without a version.
\<close>

definition updateInstalledFeatures ::
    "(string \<times> feature) list \<Rightarrow> string \<Rightarrow> string \<Rightarrow> config \<Rightarrow> run \<Rightarrow> string option \<times> config \<times> run" where
  "updateInstalledFeatures registryFeatures now featureId config r =
     (let feature = getProperty registryFeatures featureId
      in if feature = Absent then (None, config, r)
         else
           (let config' = config\<lparr>installedFeatures := (installedFeatures config)(featureId \<mapsto>
                  \<lparr>installed_version = version_of feature, installedAt = now, files = installedFiles r\<rparr>)\<rparr>
            in case saveConfig config' (disk r) of
                 Inl e \<Rightarrow> (Some e, config', r)
               | Inr w \<Rightarrow> (None, config', r\<lparr>disk := w\<rparr>)))"

text \<open>
  \<^verbatim>\<open>installFeature\<close>. \<open>Inl\<close> is the error thrown before the \<^verbatim>\<open>try\<close> block for an unknown
  feature; \<open>failure\<close> is the result built in the \<^verbatim>\<open>catch\<close> block. The registry is given
  by its list of features, as \<^verbatim>\<open>getFeature\<close> reads it; the message quotes the id.
\<close>

definition failure :: "string \<Rightarrow> run \<Rightarrow> installationResult" where
  "failure e r = \<lparr>installedFiles = installedFiles r, skippedFiles = skippedFiles r,
     errors = errors r @ [e], success = False\<rparr>"

definition notFound :: "string \<Rightarrow> string" where
  "notFound featureId = ''Feature '' @ [CHR 0x27] @ featureId @ [CHR 0x27] @ '' not found''"

definition initialRun :: "world \<Rightarrow> run" where
  "initialRun w = \<lparr>installedFiles = [], skippedFiles = [], errors = [], disk = w\<rparr>"

definition installFeature ::
    "(string \<times> feature) list \<Rightarrow> featureFiles \<Rightarrow> path \<Rightarrow> string \<Rightarrow> string \<Rightarrow> conflictingFile list \<Rightarrow>
     config \<times> world \<Rightarrow> string + (installationResult \<times> config \<times> world)" where
  "installFeature registryFeatures tpl seedPath now featureId conflictResolutions cw =
     (let config = fst cw; w = snd cw;
          feature = getProperty registryFeatures featureId
      in if feature = Absent then Inl (notFound featureId)
         else
           (let r0 = initialRun w
            in case installSchemas config conflictResolutions tpl r0 of
                 (Some e, r1) \<Rightarrow> Inr (failure e r1, config, disk r1)
               | (None, r1) \<Rightarrow>
                   (let r2 = installMigrations config tpl r1;
                        r3 = installFunctions config conflictResolutions tpl r2
                    in case installSeeds seedPath featureId tpl r3 of
                         (Some e, r4) \<Rightarrow> Inr (failure e r4, config, disk r4)
                       | (None, r4) \<Rightarrow>
                           (case updateInstalledFeatures registryFeatures now featureId config r4 of
                              (Some e, config', r5) \<Rightarrow> Inr (failure e r5, config', disk r5)
                            | (None, config', r5) \<Rightarrow>
                                Inr (\<lparr>installedFiles = installedFiles r5, skippedFiles = skippedFiles r5,
                                      errors = errors r5, success = (errors r5 = [])\<rparr>,
                                     config', disk r5)))))"

subsection \<open>Concrete projects and templates\<close>

text \<open>
  An empty project, a configuration without and with a prefix, the usual place of the seed
  file, and a few template trees: the placeholder feature with one artifact of each kind; a
  feature with two schema files in a project whose first schema target cannot be written;
  one schema file whose target already exists; a function \<^verbatim>\<open>foo\<close> with one file; a
  project whose configuration file cannot be written; a configuration in which the
  features \<^verbatim>\<open>a\<close> and \<^verbatim>\<open>b\<close> are already recorded; and a feature with a schema file, the
  function \<^verbatim>\<open>foo\<close> and a seed file, for a project in which the directory of the prefixed
  function exists. Two conflict lists for the schema file \<^verbatim>\<open>placeholder.sql\<close>: one that
  skips it and one that overwrites it. A feature with a schema file and a seed file. A
  conflict list that skips the second of the two schema files, for a project in which that
  file exists and the first target cannot be written.
\<close>

definition emptyWorld :: world where
  "emptyWorld = \<lparr>fileContent = Map.empty, directories = {[], [''supabase'']}, unwritable = {}, unreadable = {},
     cliBroken = {}, clock = 20240907120001, cliCalls = [], configFile = None, configUnwritable = False\<rparr>"

definition plainConfig :: config where
  "plainConfig = \<lparr>config_version = ''1.0.0'', sourceDir = [''supabase''], filePrefix = None,
     installedFeatures = Map.empty\<rparr>"

definition sbConfig :: config where
  "sbConfig = \<lparr>config_version = ''1.0.0'', sourceDir = [''supabase''], filePrefix = Some ''sb_'',
     installedFeatures = Map.empty\<rparr>"

definition seedSql :: path where
  "seedSql = [''supabase'', ''seed.sql'']"


definition twoSchemas :: featureFiles where
  "twoSchemas = \<lparr>schemas = Some [([''a.sql''], Some ''create schema a;''), ([''b.sql''], Some ''create schema b;'')],
     migrations = Some [([''m.sql''], Some ''create table t();'')],
     functionDirs = None, seed = None\<rparr>"

definition readOnlySchemaWorld :: world where
  "readOnlySchemaWorld = emptyWorld\<lparr>unwritable := {[''supabase'', ''schemas'', ''a.sql'']}\<rparr>"

definition oneSchema :: featureFiles where
  "oneSchema = \<lparr>schemas = Some [([''placeholder.sql''], Some ''create schema theirs;'')],
     migrations = None, functionDirs = None, seed = None\<rparr>"

definition conflictingWorld :: world where
  "conflictingWorld = emptyWorld\<lparr>
     fileContent := [[''supabase'', ''schemas'', ''placeholder.sql''] \<mapsto> ''create schema mine;''],
     directories := {[], [''supabase''], [''supabase'', ''schemas'']}\<rparr>"

definition fooFunction :: "string \<times> templateFile list" where
  "fooFunction = (''foo'', [([''index.ts''], Some ''serve()'')])"

definition unwritableConfigWorld :: world where
  "unwritableConfigWorld = emptyWorld\<lparr>configUnwritable := True\<rparr>"


definition prefixedFeature :: featureFiles where
  "prefixedFeature = \<lparr>schemas = Some [([''placeholder.sql''], Some ''create schema x;'')],
     migrations = None,
     functionDirs = Some [fooFunction],
     seed = Some [([''data.sql''], Some ''insert into t;'')]\<rparr>"

definition existingFunctionWorld :: world where
  "existingFunctionWorld = emptyWorld\<lparr>
     directories := {[], [''supabase''], [''supabase'', ''functions''], [''supabase'', ''functions'', ''sb_foo'']}\<rparr>"

definition skipResolution :: "conflictingFile list" where
  "skipResolution = [\<lparr>path = [''supabase'', ''schemas'', ''placeholder.sql''], exists = True, action = Some Skip\<rparr>]"

definition overwriteResolution :: "conflictingFile list" where
  "overwriteResolution = [\<lparr>path = [''supabase'', ''schemas'', ''placeholder.sql''], exists = True, action = Some Overwrite\<rparr>]"

definition schemaWithSeed :: featureFiles where
  "schemaWithSeed = \<lparr>schemas = Some [([''placeholder.sql''], Some ''create schema x;'')],
     migrations = None, functionDirs = None,
     seed = Some [([''data.sql''], Some ''insert into t;'')]\<rparr>"

definition skipSecondSchema :: "conflictingFile list" where
  "skipSecondSchema = [\<lparr>path = [''supabase'', ''schemas'', ''b.sql''], exists = True, action = Some Skip\<rparr>]"

definition readOnlyWithExisting :: world where
  "readOnlyWithExisting = readOnlySchemaWorld\<lparr>
     fileContent := [[''supabase'', ''schemas'', ''b.sql''] \<mapsto> ''create schema mine;''],
     directories := {[], [''supabase''], [''supabase'', ''schemas'']}\<rparr>"

section \<open>Properties of the registry\<close>

subsection \<open>Invariants of the cycle detection\<close>

text \<open>
  \<open>doneInv\<close>: every feature that is visited and no longer on the recursion stack has
  only known dependencies, all of them finished too, and lies on no cycle.
\<close>

definition doneInv :: "(string \<times> feature) list \<Rightarrow> string set \<Rightarrow> string set \<Rightarrow> bool" where
  "doneInv fs V S \<longleftrightarrow>
     (\<forall>m. m \<in> V \<and> m \<notin> S \<longrightarrow>
        (m, m) \<notin> (dependsOn fs)\<^sup>+ \<and>
        (\<forall>d. (m, d) \<in> dependsOn fs \<longrightarrow> d \<in> V \<and> d \<notin> S \<and> map_of fs d \<noteq> None))"

definition errorJustified :: "(string \<times> feature) list \<Rightarrow> error \<Rightarrow> bool" where
  "errorJustified fs e \<longleftrightarrow>
     (\<exists>z. e = CircularDependency z \<and> (z, z) \<in> (dependsOn fs)\<^sup>+) \<or>
     (\<exists>a b. e = UnknownDependency a b \<and> (a, b) \<in> dependsOn fs \<and> map_of fs b = None) \<or>
     (e = TypeError \<and> (\<exists>a b. (a, b) \<in> dependsOn fs \<and> map_of fs b = None))"

lemma closed_rtrancl:
  assumes "(d, z) \<in> R\<^sup>*" and "d \<in> D" and "\<forall>m\<in>D. \<forall>e. (m, e) \<in> R \<longrightarrow> e \<in> D"
  shows "z \<in> D"
  using assms by (induct rule: rtrancl_induct) auto

lemma doneInv_finish:
  assumes inv: "doneInv fs v (insert x S)" and xv: "x \<in> v"
    and deps: "\<forall>d. (x, d) \<in> dependsOn fs \<longrightarrow> d \<in> v \<and> d \<notin> insert x S \<and> map_of fs d \<noteq> None"
  shows "doneInv fs v (insert x S - {x})"
proof -
  let ?D = "{m. m \<in> v \<and> m \<notin> insert x S}"
  have i1: "\<And>m. m \<in> v \<Longrightarrow> m \<notin> insert x S \<Longrightarrow> (m, m) \<notin> (dependsOn fs)\<^sup>+"
    using inv unfolding doneInv_def by blast
  have i2: "\<And>m e. m \<in> v \<Longrightarrow> m \<notin> insert x S \<Longrightarrow> (m, e) \<in> dependsOn fs \<Longrightarrow>
       e \<in> v \<and> e \<notin> insert x S \<and> map_of fs e \<noteq> None"
    using inv unfolding doneInv_def by blast
  have closed: "\<forall>m\<in>?D. \<forall>e. (m, e) \<in> dependsOn fs \<longrightarrow> e \<in> ?D"
    using i2 by blast
  have nocyc: "(x, x) \<notin> (dependsOn fs)\<^sup>+"
  proof
    assume "(x, x) \<in> (dependsOn fs)\<^sup>+"
    then obtain d where xd: "(x, d) \<in> dependsOn fs" and dx: "(d, x) \<in> (dependsOn fs)\<^sup>*"
      by (meson tranclD)
    from xd deps have "d \<in> ?D" by blast
    from closed_rtrancl[OF dx this closed] have "x \<in> ?D" .
    then show False by blast
  qed
  have "(m, m) \<notin> (dependsOn fs)\<^sup>+ \<and>
        (\<forall>d. (m, d) \<in> dependsOn fs \<longrightarrow> d \<in> v \<and> d \<notin> insert x S - {x} \<and> map_of fs d \<noteq> None)"
    if m: "m \<in> v" "m \<notin> insert x S - {x}" for m
  proof (cases "m = x")
    case True
    show ?thesis unfolding True using nocyc deps by blast
  next
    case False
    then have "m \<notin> insert x S" using m by blast
    then show ?thesis using i1[OF m(1)] i2[OF m(1)] by blast
  qed
  then show ?thesis unfolding doneInv_def by blast
qed

lemma doneInv_unknown:
  assumes inv: "doneInv fs V S" and none: "map_of fs x = None"
  shows "doneInv fs (insert x V) S"
proof -
  have nd: "(x, d) \<notin> dependsOn fs" for d using none by (simp add: dependsOn_def)
  then have nc: "(x, x) \<notin> (dependsOn fs)\<^sup>+" by (meson tranclD)
  have i: "\<And>m. m \<in> V \<Longrightarrow> m \<notin> S \<Longrightarrow> (m, m) \<notin> (dependsOn fs)\<^sup>+ \<and>
        (\<forall>d. (m, d) \<in> dependsOn fs \<longrightarrow> d \<in> V \<and> d \<notin> S \<and> map_of fs d \<noteq> None)"
    using inv unfolding doneInv_def by blast
  have "(m, m) \<notin> (dependsOn fs)\<^sup>+ \<and>
        (\<forall>d. (m, d) \<in> dependsOn fs \<longrightarrow> d \<in> insert x V \<and> d \<notin> S \<and> map_of fs d \<noteq> None)"
    if m: "m \<in> insert x V" "m \<notin> S" for m
  proof (cases "m = x")
    case True
    show ?thesis unfolding True using nc nd by blast
  next
    case False
    then have "m \<in> V" using m by blast
    from i[OF this m(2)] show ?thesis by blast
  qed
  then show ?thesis unfolding doneInv_def by blast
qed

lemma doneInv_enter:
  assumes inv: "doneInv fs V S" and x: "x \<notin> V"
  shows "doneInv fs (insert x V) (insert x S)"
proof -
  have i: "\<And>m. m \<in> V \<Longrightarrow> m \<notin> S \<Longrightarrow> (m, m) \<notin> (dependsOn fs)\<^sup>+ \<and>
        (\<forall>d. (m, d) \<in> dependsOn fs \<longrightarrow> d \<in> V \<and> d \<notin> S \<and> map_of fs d \<noteq> None)"
    using inv unfolding doneInv_def by blast
  have "(m, m) \<notin> (dependsOn fs)\<^sup>+ \<and>
        (\<forall>d. (m, d) \<in> dependsOn fs \<longrightarrow> d \<in> insert x V \<and> d \<notin> insert x S \<and> map_of fs d \<noteq> None)"
    if m: "m \<in> insert x V" "m \<notin> insert x S" for m
  proof -
    have mv: "m \<in> V" "m \<notin> S" using m by blast+
    from i[OF this] x show ?thesis by blast
  qed
  then show ?thesis unfolding doneInv_def by blast
qed

lemma doneInv_mono_query:
  assumes "doneInv fs V S" "m \<in> V" "m \<notin> S" "(m, d) \<in> dependsOn fs"
  shows "d \<in> V \<and> d \<notin> S \<and> map_of fs d \<noteq> None"
  using assms unfolding doneInv_def by blast

lemma hasCycle_True_iff:
  "hasCycle fs x (V, S) = Inr (b, st') \<Longrightarrow> b \<longleftrightarrow> x \<in> S"
  by (simp split: if_splits property.splits sum.splits prod.splits)

lemma hasCycle_visited_own:
  "hasCycle fs x st = Inr (b, st') \<Longrightarrow> \<forall>m\<in>fst st. getProperty fs m \<noteq> Inherited \<Longrightarrow>
     \<forall>m\<in>fst st'. getProperty fs m \<noteq> Inherited"
  "hasCycle_deps fs y ds st = Inr st'' \<Longrightarrow> \<forall>m\<in>fst st. getProperty fs m \<noteq> Inherited \<Longrightarrow>
     \<forall>m\<in>fst st''. getProperty fs m \<noteq> Inherited"
proof (induct fs x st and fs y ds st arbitrary: b st' and st'' rule: hasCycle_hasCycle_deps.induct)
  case (1 fs featureId visited recursionStack)
  show ?case
  proof (cases "featureId \<in> recursionStack \<or> featureId \<in> visited")
    case True
    then show ?thesis using "1.prems" by (auto split: if_splits)
  next
    case False
    then have notS: "featureId \<notin> recursionStack" and notV: "featureId \<notin> visited" by blast+
    show ?thesis
    proof (cases "getProperty fs featureId")
      case Absent
      then show ?thesis using notS notV "1.prems" by auto
    next
      case Inherited
      then show ?thesis using notS notV "1.prems" by auto
    next
      case (Own f)
      from notS notV Own "1.prems"(1) obtain v s where
        r: "hasCycle_deps fs featureId (deps_of f) (insert featureId visited, insert featureId recursionStack) = Inr (v, s)"
        and st': "st' = (v, s - {featureId})"
        by (auto split: sum.splits prod.splits)
      have p: "\<forall>m\<in>fst (insert featureId visited, insert featureId recursionStack). getProperty fs m \<noteq> Inherited"
        using "1.prems"(2) Own by simp
      show ?thesis using "1.hyps"[OF notS notV Own r p] st' by simp
    qed
  qed
next
  case (2 fs featureId st)
  then show ?case by simp
next
  case (3 fs featureId dependency rest st)
  from "3.prems"(1) have known: "getProperty fs dependency \<noteq> Absent"
    by (auto split: if_splits)
  from "3.prems"(1) known obtain st1 where
    r1: "hasCycle fs dependency st = Inr (False, st1)" and r2: "hasCycle_deps fs featureId rest st1 = Inr st''"
    by (auto split: sum.splits prod.splits bool.splits)
  note A = "3.hyps"(1)[OF known r1 "3.prems"(2)]
  show ?case using "3.hyps"(2)[OF known r1 refl refl r2 A] .
qed

lemma hasCycle_finished_own:
  assumes r: "hasCycle fs x st = Inr (False, st')" and own: "\<forall>m\<in>fst st. getProperty fs m \<noteq> Inherited"
    and known: "getProperty fs x \<noteq> Absent"
  shows "map_of fs x \<noteq> None"
proof -
  obtain V S where st: "st = (V, S)" by (cases st)
  have "getProperty fs x \<noteq> Inherited"
  proof (cases "x \<in> V")
    case True
    then show ?thesis using own st by simp
  next
    case False
    then show ?thesis using r st by (auto split: if_splits)
  qed
  then obtain f where "getProperty fs x = Own f" using known by (cases "getProperty fs x") auto
  then show ?thesis by (simp add: getProperty_Own)
qed

lemma hasCycle_success:
  "hasCycle fs x st = Inr (b, st') \<Longrightarrow> doneInv fs (fst st) (snd st) \<Longrightarrow>
     \<forall>m\<in>fst st. getProperty fs m \<noteq> Inherited \<Longrightarrow>
     snd st' = snd st \<and> fst st \<subseteq> fst st' \<and> doneInv fs (fst st') (snd st') \<and>
     (\<not> b \<longrightarrow> x \<in> fst st' \<and> x \<notin> snd st')"
  "hasCycle_deps fs y ds st = Inr st'' \<Longrightarrow> doneInv fs (fst st) (snd st) \<Longrightarrow>
     \<forall>m\<in>fst st. getProperty fs m \<noteq> Inherited \<Longrightarrow>
     snd st'' = snd st \<and> fst st \<subseteq> fst st'' \<and> doneInv fs (fst st'') (snd st'') \<and>
     (\<forall>d\<in>set ds. d \<in> fst st'' \<and> d \<notin> snd st'' \<and> map_of fs d \<noteq> None)"
proof (induct fs x st and fs y ds st arbitrary: b st' and st'' rule: hasCycle_hasCycle_deps.induct)
  case (1 fs featureId visited recursionStack)
  have inv: "doneInv fs visited recursionStack" using "1.prems"(2) by simp
  show ?case
  proof (cases "featureId \<in> recursionStack")
    case True
    then have "st' = (visited, recursionStack)" "b" using "1.prems"(1) by auto
    then show ?thesis using inv by simp
  next
    case notS: False
    show ?thesis
    proof (cases "featureId \<in> visited")
      case True
      then have "st' = (visited, recursionStack)" "\<not> b" using "1.prems"(1) notS by auto
      then show ?thesis using inv notS True by simp
    next
      case notV: False
      show ?thesis
      proof (cases "getProperty fs featureId")
        case Absent
        then have st': "st' = (insert featureId visited, recursionStack)" and b: "\<not> b"
          using notS notV "1.prems"(1) by auto
        have None: "map_of fs featureId = None" using Absent getProperty_not_Own by blast
        have "doneInv fs (insert featureId visited) recursionStack"
          using doneInv_unknown[OF inv None] .
        then show ?thesis using st' b notS by auto
      next
        case Inherited
        then show ?thesis using notS notV "1.prems"(1) by auto
      next
        case (Own f)
        have Some: "map_of fs featureId = Some f" using Own by (simp add: getProperty_Own)
        from notS notV Own "1.prems"(1) obtain v s where
          r: "hasCycle_deps fs featureId (deps_of f) (insert featureId visited, insert featureId recursionStack) = Inr (v, s)"
          and st': "st' = (v, s - {featureId})" and b: "\<not> b"
          by (auto split: sum.splits prod.splits)
        have inv0: "doneInv fs (fst (insert featureId visited, insert featureId recursionStack))
             (snd (insert featureId visited, insert featureId recursionStack))"
          using doneInv_enter[OF inv notV] by simp
        have own0: "\<forall>m\<in>fst (insert featureId visited, insert featureId recursionStack). getProperty fs m \<noteq> Inherited"
          using "1.prems"(3) Own by simp
        have H: "s = insert featureId recursionStack \<and> insert featureId visited \<subseteq> v \<and>
            doneInv fs v s \<and> (\<forall>d\<in>set (deps_of f). d \<in> v \<and> d \<notin> s \<and> map_of fs d \<noteq> None)"
          using "1.hyps"[OF notS notV Own r inv0 own0] unfolding fst_conv snd_conv by blast
        have s: "s = insert featureId recursionStack" using H by blast
        have vv: "insert featureId visited \<subseteq> v" using H by blast
        have inv1: "doneInv fs v s" using H by blast
        have deps: "\<forall>d\<in>set (deps_of f). d \<in> v \<and> d \<notin> s \<and> map_of fs d \<noteq> None"
          using H by blast
        have deps': "\<forall>d. (featureId, d) \<in> dependsOn fs \<longrightarrow>
            d \<in> v \<and> d \<notin> insert featureId recursionStack \<and> map_of fs d \<noteq> None"
          using deps Some s by (simp add: dependsOn_def)
        have xv: "featureId \<in> v" using vv by blast
        have inv2: "doneInv fs v (insert featureId recursionStack - {featureId})"
          using doneInv_finish[OF inv1[unfolded s] xv deps'] .
        have eq: "insert featureId recursionStack - {featureId} = recursionStack"
          using notS by blast
        show ?thesis unfolding st' s eq using inv2[unfolded eq] vv xv notS b by simp
      qed
    qed
  qed
next
  case (2 fs featureId st)
  then show ?case by simp
next
  case (3 fs featureId dependency rest st)
  from "3.prems"(1) have present: "getProperty fs dependency \<noteq> Absent"
    by (auto split: if_splits)
  from "3.prems"(1) present obtain st1 where
    r1: "hasCycle fs dependency st = Inr (False, st1)" and r2: "hasCycle_deps fs featureId rest st1 = Inr st''"
    by (auto split: sum.splits prod.splits bool.splits)
  have known: "map_of fs dependency \<noteq> None"
    using hasCycle_finished_own[OF r1 "3.prems"(3) present] .
  note A = "3.hyps"(1)[OF present r1 "3.prems"(2,3)]
  have a: "snd st1 = snd st" "fst st \<subseteq> fst st1" "doneInv fs (fst st1) (snd st1)"
    "dependency \<in> fst st1" "dependency \<notin> snd st1"
    using A by blast+
  note own1 = hasCycle_visited_own(1)[OF r1 "3.prems"(3)]
  note C = "3.hyps"(2)[OF present r1 refl refl r2 a(3) own1]
  have c: "snd st'' = snd st1" "fst st1 \<subseteq> fst st''" "doneInv fs (fst st'') (snd st'')"
    "\<forall>d\<in>set rest. d \<in> fst st'' \<and> d \<notin> snd st'' \<and> map_of fs d \<noteq> None"
    using C by blast+
  have "dependency \<in> fst st''" "dependency \<notin> snd st''" using a c by auto
  then show ?case using a c known by auto
qed

lemma hasCycle_stack:
  "hasCycle fs x st = Inr (b, st') \<Longrightarrow> snd st' = snd st"
  "hasCycle_deps fs y ds st = Inr st'' \<Longrightarrow> snd st'' = snd st"
proof (induct fs x st and fs y ds st arbitrary: b st' and st'' rule: hasCycle_hasCycle_deps.induct)
  case (1 fs featureId visited recursionStack)
  show ?case
  proof (cases "featureId \<in> recursionStack \<or> featureId \<in> visited")
    case True
    then show ?thesis using "1.prems" by (auto split: if_splits)
  next
    case False
    then have notS: "featureId \<notin> recursionStack" and notV: "featureId \<notin> visited" by blast+
    show ?thesis
    proof (cases "getProperty fs featureId")
      case Absent
      then show ?thesis using notS notV "1.prems" by auto
    next
      case Inherited
      then show ?thesis using notS notV "1.prems" by auto
    next
      case (Own f)
      from notS notV Own "1.prems" obtain v s where
        r: "hasCycle_deps fs featureId (deps_of f) (insert featureId visited, insert featureId recursionStack) = Inr (v, s)"
        and st': "st' = (v, s - {featureId})"
        by (auto split: sum.splits prod.splits)
      have "s = insert featureId recursionStack" using "1.hyps"[OF notS notV Own r] by simp
      then show ?thesis using st' notS by auto
    qed
  qed
next
  case (2 fs featureId st)
  then show ?case by simp
next
  case (3 fs featureId dependency rest st)
  from "3.prems" have known: "getProperty fs dependency \<noteq> Absent"
    by (auto split: if_splits)
  from "3.prems" known obtain st1 where
    r1: "hasCycle fs dependency st = Inr (False, st1)" and r2: "hasCycle_deps fs featureId rest st1 = Inr st''"
    by (auto split: sum.splits prod.splits bool.splits)
  show ?case using "3.hyps"(1)[OF known r1] "3.hyps"(2)[OF known r1 refl refl r2] by simp
qed

lemma hasCycle_error:
  "hasCycle fs x st = Inl e \<Longrightarrow> \<forall>s\<in>snd st. (s, x) \<in> (dependsOn fs)\<^sup>* \<Longrightarrow>
     getProperty fs x = Inherited \<longrightarrow> (\<exists>a. (a, x) \<in> dependsOn fs) \<Longrightarrow> errorJustified fs e"
  "hasCycle_deps fs y ds st = Inl e \<Longrightarrow> \<forall>s\<in>snd st. (s, y) \<in> (dependsOn fs)\<^sup>* \<Longrightarrow>
     \<forall>d\<in>set ds. (y, d) \<in> dependsOn fs \<Longrightarrow> errorJustified fs e"
proof (induct fs x st and fs y ds st arbitrary: e and e rule: hasCycle_hasCycle_deps.induct)
  case (1 fs featureId visited recursionStack)
  from "1.prems"(1) have notS: "featureId \<notin> recursionStack" and notV: "featureId \<notin> visited"
    by (auto split: if_splits)
  show ?case
  proof (cases "getProperty fs featureId")
    case Absent
    then show ?thesis using "1.prems"(1) notS notV by simp
  next
    case Inherited
    then have e: "e = TypeError" using "1.prems"(1) notS notV by simp
    have "map_of fs featureId = None" using Inherited getProperty_not_Own by blast
    moreover obtain a where "(a, featureId) \<in> dependsOn fs" using "1.prems"(3) Inherited by blast
    ultimately show ?thesis using e unfolding errorJustified_def by blast
  next
    case (Own f)
    have Some: "map_of fs featureId = Some f" using Own by (simp add: getProperty_Own)
    from "1.prems"(1) notS notV Own
    have r: "hasCycle_deps fs featureId (deps_of f) (insert featureId visited, insert featureId recursionStack) = Inl e"
      by (auto split: sum.splits prod.splits)
    have p1: "\<forall>s\<in>snd (insert featureId visited, insert featureId recursionStack). (s, featureId) \<in> (dependsOn fs)\<^sup>*"
      using "1.prems"(2) by simp
    have p2: "\<forall>d\<in>set (deps_of f). (featureId, d) \<in> dependsOn fs"
      using Some by (simp add: dependsOn_def)
    show ?thesis using "1.hyps"[OF notS notV Own r p1 p2] .
  qed
next
  case (2 fs featureId st)
  then show ?case by simp
next
  case (3 fs featureId dependency rest st)
  have yd: "(featureId, dependency) \<in> dependsOn fs" using "3.prems"(3) by simp
  show ?case
  proof (cases "getProperty fs dependency = Absent")
    case True
    then have "e = UnknownDependency featureId dependency" using "3.prems"(1) by simp
    moreover have "map_of fs dependency = None" using True getProperty_not_Own by blast
    ultimately show ?thesis using yd unfolding errorJustified_def by blast
  next
    case known: False
    have pre: "\<forall>s\<in>snd st. (s, dependency) \<in> (dependsOn fs)\<^sup>*"
      using "3.prems"(2) yd by (meson rtrancl.rtrancl_into_rtrancl)
    have pre': "getProperty fs dependency = Inherited \<longrightarrow> (\<exists>a. (a, dependency) \<in> dependsOn fs)"
      using yd by blast
    show ?thesis
    proof (cases "hasCycle fs dependency st")
      case (Inl e')
      then have "e = e'" using "3.prems"(1) known by simp
      then show ?thesis using "3.hyps"(1)[OF known Inl pre pre'] by simp
    next
      case (Inr r)
      obtain b st1 where r: "r = (b, st1)" by (cases r)
      show ?thesis
      proof (cases b)
        case True
        then have e: "e = CircularDependency featureId" using "3.prems"(1) known Inr r by simp
        obtain V S where st: "st = (V, S)" by (cases st)
        have "dependency \<in> S" using hasCycle_True_iff[of fs dependency V S b st1] Inr r True st by simp
        then have "(dependency, featureId) \<in> (dependsOn fs)\<^sup>*" using "3.prems"(2) st by simp
        then have "(featureId, featureId) \<in> (dependsOn fs)\<^sup>+" using yd by (meson rtrancl_into_trancl2)
        then show ?thesis using e unfolding errorJustified_def by blast
      next
        case False
        then have r1: "hasCycle fs dependency st = Inr (False, st1)" using Inr r by simp
        then have r2: "hasCycle_deps fs featureId rest st1 = Inl e" using "3.prems"(1) known by simp
        have s1: "snd st1 = snd st" using hasCycle_stack(1)[OF r1] .
        have pre2: "\<forall>s\<in>snd st1. (s, featureId) \<in> (dependsOn fs)\<^sup>*" using "3.prems"(2) s1 by simp
        have pre3: "\<forall>d\<in>set rest. (featureId, d) \<in> dependsOn fs" using "3.prems"(3) by simp
        show ?thesis using "3.hyps"(2)[OF known r1 refl refl r2 pre2 pre3] .
      qed
    qed
  qed
qed

lemma checkFrom_success:
  "checkFrom fs ks st = Inr st' \<Longrightarrow> doneInv fs (fst st) (snd st) \<Longrightarrow> snd st = {} \<Longrightarrow>
     \<forall>m\<in>fst st. getProperty fs m \<noteq> Inherited \<Longrightarrow>
     snd st' = {} \<and> doneInv fs (fst st') (snd st') \<and> set ks \<union> fst st \<subseteq> fst st'"
proof (induct ks arbitrary: st)
  case Nil
  then show ?case by simp
next
  case (Cons k ks)
  show ?case
  proof (cases "k \<in> fst st")
    case True
    then have "checkFrom fs ks st = Inr st'" using Cons.prems(1) by simp
    from Cons.hyps[OF this Cons.prems(2,3,4)] True show ?thesis by auto
  next
    case False
    from False Cons.prems(1) obtain b st1 where
      r1: "hasCycle fs k st = Inr (b, st1)" and r2: "checkFrom fs ks st1 = Inr st'"
      by (auto split: sum.splits prod.splits)
    note A = hasCycle_success(1)[OF r1 Cons.prems(2,4)]
    have a: "snd st1 = snd st" "fst st \<subseteq> fst st1" "doneInv fs (fst st1) (snd st1)"
      using A by blast+
    obtain V S where st: "st = (V, S)" by (cases st)
    have "\<not> b" using hasCycle_True_iff[of fs k V S b st1] r1 st Cons.prems(3) by simp
    then have kin: "k \<in> fst st1" using A by blast
    have e1: "snd st1 = {}" using a(1) Cons.prems(3) by simp
    note own1 = hasCycle_visited_own(1)[OF r1 Cons.prems(4)]
    note C = Cons.hyps[OF r2 a(3) e1 own1]
    show ?thesis using C a kin by auto
  qed
qed

lemma checkFrom_error:
  "checkFrom fs ks st = Inl e \<Longrightarrow> snd st = {} \<Longrightarrow> \<forall>k\<in>set ks. map_of fs k \<noteq> None \<Longrightarrow>
   errorJustified fs e"
proof (induct ks arbitrary: st)
  case Nil
  then show ?case by simp
next
  case (Cons k ks)
  have rest: "\<forall>k\<in>set ks. map_of fs k \<noteq> None" using Cons.prems(3) by simp
  show ?case
  proof (cases "k \<in> fst st")
    case True
    then show ?thesis using Cons.hyps[of st] Cons.prems(1,2) rest by simp
  next
    case False
    show ?thesis
    proof (cases "hasCycle fs k st")
      case (Inl e')
      then have "e = e'" using Cons.prems(1) False by simp
      moreover have "getProperty fs k \<noteq> Inherited"
        using Cons.prems(3) getProperty_known[of fs k] by auto
      then have "errorJustified fs e'" using hasCycle_error(1)[OF Inl] Cons.prems(2) by simp
      ultimately show ?thesis by simp
    next
      case (Inr r)
      obtain b st1 where r: "r = (b, st1)" by (cases r)
      have "snd st1 = {}" using hasCycle_stack(1)[of fs k st b st1] Inr r Cons.prems(2) by simp
      moreover have "checkFrom fs ks st1 = Inl e" using Cons.prems(1) False Inr r by simp
      ultimately show ?thesis using Cons.hyps rest by blast
    qed
  qed
qed

lemma checkCircularDependencies_ok:
  assumes "checkCircularDependencies fs = Inr ()"
  shows "(\<forall>x. (x, x) \<notin> (dependsOn fs)\<^sup>+) \<and> (\<forall>a b. (a, b) \<in> dependsOn fs \<longrightarrow> map_of fs b \<noteq> None)"
proof -
  from assms obtain st' where r: "checkFrom fs (map fst fs) ({}, {}) = Inr st'"
    by (auto simp: checkCircularDependencies_def split: sum.splits)
  have inv0: "doneInv fs (fst ({}, {})) (snd ({}::string set, {}::string set))"
    by (simp add: doneInv_def)
  note A = checkFrom_success[OF r inv0, simplified]
  have e: "snd st' = {}" and inv: "doneInv fs (fst st') (snd st')" and keys: "fst ` set fs \<subseteq> fst st'"
    using A by auto
  have src: "a \<in> fst st'" if "(a, b) \<in> dependsOn fs" for a b
  proof -
    from that obtain f where "map_of fs a = Some f" by (auto simp: dependsOn_def)
    then have "a \<in> fst ` set fs" by (metis map_of_eq_None_iff option.distinct(1))
    then show ?thesis using keys by blast
  qed
  have i: "\<And>m. m \<in> fst st' \<Longrightarrow> (m, m) \<notin> (dependsOn fs)\<^sup>+ \<and>
        (\<forall>d. (m, d) \<in> dependsOn fs \<longrightarrow> map_of fs d \<noteq> None)"
    using inv e unfolding doneInv_def by blast
  have "(x, x) \<notin> (dependsOn fs)\<^sup>+" for x
  proof
    assume c: "(x, x) \<in> (dependsOn fs)\<^sup>+"
    then obtain d where "(x, d) \<in> dependsOn fs" by (meson tranclD)
    from src[OF this] i c show False by blast
  qed
  moreover have "map_of fs b \<noteq> None" if "(a, b) \<in> dependsOn fs" for a b
    using i[OF src[OF that]] that by blast
  ultimately show ?thesis by blast
qed

lemma checkCircularDependencies_error:
  assumes "checkCircularDependencies fs = Inl e"
  shows "errorJustified fs e"
proof -
  from assms have r: "checkFrom fs (map fst fs) ({}, {}) = Inl e"
    by (auto simp: checkCircularDependencies_def split: sum.splits)
  have keys: "\<forall>k\<in>set (map fst fs). map_of fs k \<noteq> None"
    by (auto simp: map_of_eq_None_iff)
  from checkFrom_error[OF r _ keys] show ?thesis by simp
qed

lemma validateFeatures_missing:
  "(k, f) \<in> set fs \<Longrightarrow> missingRequiredField f \<Longrightarrow> \<exists>e. validateFeatures fs = Inl e"
proof (induct fs)
  case Nil
  then show ?case by simp
next
  case (Cons p fs)
  obtain k' f' where p: "p = (k', f')" by (cases p)
  show ?case
  proof (cases "validateFeature k' f'")
    case (Inl e)
    then show ?thesis using p by simp
  next
    case (Inr u)
    have "\<not> missingRequiredField f'"
      using Inr unfolding validateFeature_def missingRequiredField_def
      by (auto split: if_splits)
    then have "(k, f) \<in> set fs" using Cons.prems p by auto
    then show ?thesis using Cons.hyps Cons.prems(2) Inr p by simp
  qed
qed

lemma validateFeatures_ok:
  "\<forall>(k, f)\<in>set fs. \<not> missingRequiredField f \<and> (\<exists>ds. dependencies f = Some (Array ds)) \<Longrightarrow>
   validateFeatures fs = Inr ()"
proof (induct fs)
  case Nil
  then show ?case by simp
next
  case (Cons p fs)
  obtain k' f' where p: "p = (k', f')" by (cases p)
  have "\<not> missingRequiredField f'" "\<exists>ds. dependencies f' = Some (Array ds)"
    using Cons.prems p by auto
  then have "validateFeature k' f' = Inr ()"
    unfolding validateFeature_def missingRequiredField_def by auto
  moreover have "validateFeatures fs = Inr ()" using Cons by simp
  ultimately show ?case using p by simp
qed

lemma validateFeatures_error_shape:
  "validateFeatures fs = Inl e \<Longrightarrow> (\<exists>k fld. e = MissingField k fld) \<or> (\<exists>k. e = DependenciesNotArray k)"
proof (induct fs)
  case Nil
  then show ?case by simp
next
  case (Cons p fs)
  obtain k' f' where p: "p = (k', f')" by (cases p)
  show ?case
  proof (cases "validateFeature k' f'")
    case (Inl e')
    then have "e = e'" using Cons.prems p by simp
    then show ?thesis using Inl unfolding validateFeature_def
      by (auto split: if_splits option.splits dependencies_field.splits)
  next
    case (Inr u)
    then show ?thesis using Cons p by simp
  qed
qed

lemma validateFeatures_arrays:
  "validateFeatures fs = Inr () \<Longrightarrow> (k, f) \<in> set fs \<Longrightarrow> iterate (dependencies f) \<noteq> None"
proof (induct fs)
  case Nil
  then show ?case by simp
next
  case (Cons p fs)
  obtain k' f' where p: "p = (k', f')" by (cases p)
  from Cons.prems(1) p have v: "validateFeature k' f' = Inr ()" and rest: "validateFeatures fs = Inr ()"
    by (auto split: sum.splits)
  have "iterate (dependencies f') \<noteq> None"
    using v unfolding validateFeature_def iterate_def
    by (auto split: if_splits option.splits dependencies_field.splits)
  then show ?case using Cons.hyps[OF rest] Cons.prems(2) p by auto
qed

lemma validateRegistry_arrays:
  assumes "validateRegistry reg = Inr ()" and "features reg = Some fs"
  shows "\<forall>k f. map_of fs k = Some f \<longrightarrow> iterate (dependencies f) \<noteq> None"
proof (intro allI impI)
  fix k f assume "map_of fs k = Some f"
  then have m: "(k, f) \<in> set fs" by (rule map_of_SomeD)
  have "validateFeatures fs = Inr ()"
    using assms unfolding validateRegistry_def by (auto split: if_splits sum.splits)
  from validateFeatures_arrays[OF this m] show "iterate (dependencies f) \<noteq> None" .
qed

lemma validateRegistry_ok:
  assumes "validateRegistry reg = Inr ()" and "features reg = Some fs"
  shows "(\<forall>x. (x, x) \<notin> (dependsOn fs)\<^sup>+) \<and> (\<forall>a b. (a, b) \<in> dependsOn fs \<longrightarrow> map_of fs b \<noteq> None)"
proof -
  have "checkCircularDependencies fs = Inr ()"
    using assms unfolding validateRegistry_def by (auto split: if_splits sum.splits)
  then show ?thesis by (rule checkCircularDependencies_ok)
qed

lemma validateRegistry_circular:
  assumes "validateRegistry reg = Inl (CircularDependency x)" and "features reg = Some fs"
  shows "(x, x) \<in> (dependsOn fs)\<^sup>+"
proof -
  have "validateFeatures fs \<noteq> Inl (CircularDependency x)"
    using validateFeatures_error_shape[of fs "CircularDependency x"] by auto
  then have "checkCircularDependencies fs = Inl (CircularDependency x)"
    using assms unfolding validateRegistry_def by (auto split: if_splits sum.splits)
  then have "errorJustified fs (CircularDependency x)" by (rule checkCircularDependencies_error)
  then show ?thesis unfolding errorJustified_def by simp
qed

lemma sum_unit_cases: "(r :: error + unit) = Inr () \<or> (\<exists>e. r = Inl e)"
  by (cases r) auto

lemma twoCycle_result:
  "validateRegistry \<lparr>registry_version = Some ''1.0.0'', features = Some twoCycle\<rparr> = Inl (CircularDependency ''b'')"
  by (simp add: validateRegistry_def twoCycle_def validateFeature_def checkCircularDependencies_def deps_of_def
      getProperty_def)

lemma dependsOn_cyclicWithUnknown:
  "dependsOn cyclicWithUnknown = {(''c'', ''zzz''), (''a'', ''b''), (''b'', ''a'')}"
  unfolding dependsOn_def cyclicWithUnknown_def
  by (auto simp: deps_of_def split: if_splits)

subsection \<open>Invariants of the resolution\<close>

text \<open>
  \<open>topo R L\<close>: every dependency of an element of \<open>L\<close> stands at a smaller index.
  \<open>rpost\<close> relates the state before and after a call: the list only grows, by features
  that were not visited and that are reachable from the roots of the call, and the set of
  features that are visited but not resolved stays the same.
\<close>

definition topo :: "(string \<times> string) set \<Rightarrow> string list \<Rightarrow> bool" where
  "topo R L \<longleftrightarrow> (\<forall>i<length L. \<forall>d. (L ! i, d) \<in> R \<longrightarrow> (\<exists>j<i. L ! j = d))"

definition rinv :: "(string \<times> feature) list \<Rightarrow> string set \<Rightarrow> string list \<Rightarrow> bool" where
  "rinv fs V L \<longleftrightarrow> distinct L \<and> set L \<subseteq> V \<and> topo (dependsOn fs) L"

definition rpost :: "(string \<times> feature) list \<Rightarrow> string set \<Rightarrow> string set \<Rightarrow> string list \<Rightarrow>
    string set \<Rightarrow> string list \<Rightarrow> bool" where
  "rpost fs X V L V' L' \<longleftrightarrow>
     rinv fs V' L' \<and> V \<subseteq> V' \<and>
     (\<exists>new. L' = L @ new \<and> set new \<inter> V = {} \<and> set new \<subseteq> (dependsOn fs)\<^sup>* `` X) \<and>
     (\<forall>g. (g \<in> V' \<and> g \<notin> set L') \<longleftrightarrow> (g \<in> V \<and> g \<notin> set L))"

lemma topo_snoc:
  assumes "topo R r" and "\<forall>d. (x, d) \<in> R \<longrightarrow> d \<in> set r"
  shows "topo R (r @ [x])"
  unfolding topo_def
proof (intro allI impI)
  fix i d assume i: "i < length (r @ [x])" and e: "((r @ [x]) ! i, d) \<in> R"
  show "\<exists>j<i. (r @ [x]) ! j = d"
  proof (cases "i < length r")
    case True
    then have "(r @ [x]) ! i = r ! i" by (simp add: nth_append)
    then have "(r ! i, d) \<in> R" using e by simp
    then obtain j where j: "j < i" "r ! j = d" using assms(1) True unfolding topo_def by blast
    then have "j < length r" using True by simp
    then have "(r @ [x]) ! j = d" using j(2) by (simp add: nth_append)
    then show ?thesis using j(1) by blast
  next
    case False
    then have il: "i = length r" using i by simp
    then have "(r @ [x]) ! i = x" by simp
    then have "(x, d) \<in> R" using e by simp
    then have "d \<in> set r" using assms(2) by blast
    then obtain j where j: "j < length r" "r ! j = d" unfolding in_set_conv_nth by blast
    then have "(r @ [x]) ! j = d" by (simp add: nth_append)
    then show ?thesis using j(1) il by blast
  qed
qed

lemma topo_closed:
  assumes "topo R L" "z \<in> set L" "(z, d) \<in> R"
  shows "d \<in> set L"
proof -
  from assms(2) obtain i where i: "i < length L" "L ! i = z" by (auto simp: in_set_conv_nth)
  with assms(1,3) obtain j where "j < i" "L ! j = d" unfolding topo_def by blast
  then show ?thesis using i(1) by (metis less_trans nth_mem)
qed

lemma rpost_refl: "rinv fs V L \<Longrightarrow> rpost fs X V L V L"
  unfolding rpost_def by simp

lemma rpost_trans:
  assumes a: "rpost fs X V L V1 L1" and b: "rpost fs Y V1 L1 V2 L2"
    and X: "X \<subseteq> Z" and Y: "Y \<subseteq> Z"
  shows "rpost fs Z V L V2 L2"
proof -
  from a obtain n1 where n1: "L1 = L @ n1" "set n1 \<inter> V = {}" "set n1 \<subseteq> (dependsOn fs)\<^sup>* `` X"
    and v1: "V \<subseteq> V1" and g1: "\<forall>g. (g \<in> V1 \<and> g \<notin> set L1) \<longleftrightarrow> (g \<in> V \<and> g \<notin> set L)"
    unfolding rpost_def by blast
  from b obtain n2 where n2: "L2 = L1 @ n2" "set n2 \<inter> V1 = {}" "set n2 \<subseteq> (dependsOn fs)\<^sup>* `` Y"
    and v2: "V1 \<subseteq> V2" and g2: "\<forall>g. (g \<in> V2 \<and> g \<notin> set L2) \<longleftrightarrow> (g \<in> V1 \<and> g \<notin> set L1)"
    and inv2: "rinv fs V2 L2"
    unfolding rpost_def by blast
  have e: "L2 = L @ (n1 @ n2)" using n1(1) n2(1) by simp
  have d: "set (n1 @ n2) \<inter> V = {}" using n1(2) n2(2) v1 by auto
  have "(dependsOn fs)\<^sup>* `` X \<subseteq> (dependsOn fs)\<^sup>* `` Z" "(dependsOn fs)\<^sup>* `` Y \<subseteq> (dependsOn fs)\<^sup>* `` Z"
    using X Y by blast+
  then have "set n1 \<subseteq> (dependsOn fs)\<^sup>* `` Z" "set n2 \<subseteq> (dependsOn fs)\<^sup>* `` Z"
    using n1(3) n2(3) by blast+
  then have r: "set (n1 @ n2) \<subseteq> (dependsOn fs)\<^sup>* `` Z" by simp
  have g: "\<forall>g. (g \<in> V2 \<and> g \<notin> set L2) \<longleftrightarrow> (g \<in> V \<and> g \<notin> set L)" using g1 g2 by blast
  have v: "V \<subseteq> V2" using v1 v2 by blast
  have ex: "\<exists>new. L2 = L @ new \<and> set new \<inter> V = {} \<and> set new \<subseteq> (dependsOn fs)\<^sup>* `` Z"
    using e d r by (intro exI[of _ "n1 @ n2"] conjI)
  show ?thesis unfolding rpost_def by (intro conjI) (rule inv2 v ex g)+
qed

lemma resolve_correct:
  "\<forall>z. (z, z) \<notin> (dependsOn fs)\<^sup>+ \<Longrightarrow>
     \<forall>a b. (a, b) \<in> dependsOn fs \<longrightarrow> map_of fs b \<noteq> None \<Longrightarrow>
     \<forall>k f. map_of fs k = Some f \<longrightarrow> iterate (dependencies f) \<noteq> None \<Longrightarrow>
     map_of fs x \<noteq> None \<Longrightarrow> rinv fs (fst st) (snd st) \<Longrightarrow>
     \<forall>g. g \<in> fst st \<and> g \<notin> set (snd st) \<longrightarrow> (g, x) \<in> (dependsOn fs)\<^sup>+ \<Longrightarrow>
     \<exists>st'. resolve fs x st = Inr st' \<and>
       rpost fs {x} (fst st) (snd st) (fst st') (snd st') \<and> x \<in> set (snd st') \<and>
       (x \<notin> fst st \<longrightarrow> snd st' \<noteq> [] \<and> last (snd st') = x)"
  "\<forall>z. (z, z) \<notin> (dependsOn fs)\<^sup>+ \<Longrightarrow>
     \<forall>a b. (a, b) \<in> dependsOn fs \<longrightarrow> map_of fs b \<noteq> None \<Longrightarrow>
     \<forall>k f. map_of fs k = Some f \<longrightarrow> iterate (dependencies f) \<noteq> None \<Longrightarrow>
     \<forall>d\<in>set ds. map_of fs d \<noteq> None \<Longrightarrow> rinv fs (fst st) (snd st) \<Longrightarrow>
     \<forall>d\<in>set ds. \<forall>g. g \<in> fst st \<and> g \<notin> set (snd st) \<longrightarrow> (g, d) \<in> (dependsOn fs)\<^sup>+ \<Longrightarrow>
     \<exists>st''. resolve_deps fs ds st = Inr st'' \<and>
       rpost fs (set ds) (fst st) (snd st) (fst st'') (snd st'') \<and> set ds \<subseteq> set (snd st'')"
proof (induct fs x st and fs ds st rule: resolve_resolve_deps.induct)
  case (1 fs x V L)
  note acyc = "1.prems"(1) and known = "1.prems"(2) and arrays = "1.prems"(3)
  have inv: "rinv fs V L" using "1.prems"(5) by simp
  have grey: "\<And>g. g \<in> V \<Longrightarrow> g \<notin> set L \<Longrightarrow> (g, x) \<in> (dependsOn fs)\<^sup>+"
    using "1.prems"(6) by simp
  show ?case
  proof (cases "x \<in> V")
    case True
    then have st': "resolve fs x (V, L) = Inr (V, L)" by simp
    have "x \<in> set L"
    proof (rule ccontr)
      assume "x \<notin> set L"
      from grey[OF True this] acyc show False by blast
    qed
    then show ?thesis unfolding st' using True rpost_refl[OF inv] by simp
  next
    case notV: False
    from "1.prems"(4) obtain f where Some: "map_of fs x = Some f" by blast
    then have Own: "getProperty fs x = Own f" by (simp add: getProperty_Own)
    from arrays Some obtain ds where it: "iterate (dependencies f) = Some ds" by blast
    have ds: "deps_of f = ds"
      using it by (auto simp: iterate_def deps_of_def split: option.splits dependencies_field.splits)
    have xL: "x \<notin> set L" using inv notV unfolding rinv_def by blast
    have depsR: "\<And>d. d \<in> set ds \<Longrightarrow> (x, d) \<in> dependsOn fs"
      using Some ds by (auto simp: dependsOn_def)
    have depsR': "\<And>d. (x, d) \<in> dependsOn fs \<Longrightarrow> d \<in> set ds"
      using Some ds by (auto simp: dependsOn_def)
    have p4: "\<forall>d\<in>set ds. map_of fs d \<noteq> None" using depsR known by blast
    have p5: "rinv fs (fst (insert x V, L)) (snd (insert x V, L))"
      using inv unfolding rinv_def by auto
    have p6: "\<forall>d\<in>set ds. \<forall>g. g \<in> fst (insert x V, L) \<and> g \<notin> set (snd (insert x V, L)) \<longrightarrow>
        (g, d) \<in> (dependsOn fs)\<^sup>+"
    proof (intro ballI allI impI)
      fix d g assume d: "d \<in> set ds" and g: "g \<in> fst (insert x V, L) \<and> g \<notin> set (snd (insert x V, L))"
      show "(g, d) \<in> (dependsOn fs)\<^sup>+"
      proof (cases "g = x")
        case True
        then show ?thesis using depsR[OF d] by blast
      next
        case False
        then have "(g, x) \<in> (dependsOn fs)\<^sup>+" using g grey by simp
        then show ?thesis using depsR[OF d] by (meson trancl.trancl_into_trancl)
      qed
    qed
    from "1.hyps"[OF notV Own it acyc known arrays p4 p5 p6] obtain st1 where
      rd0: "resolve_deps fs ds (insert x V, L) = Inr st1"
      and H0: "rpost fs (set ds) (fst (insert x V, L)) (snd (insert x V, L)) (fst st1) (snd st1)"
        "set ds \<subseteq> set (snd st1)"
      by blast
    obtain v r where st1: "st1 = (v, r)" by (cases st1)
    have rd: "resolve_deps fs ds (insert x V, L) = Inr (v, r)" using rd0 st1 by simp
    have H: "rpost fs (set ds) (insert x V) L v r" "set ds \<subseteq> set r"
      using H0 st1 by simp_all
    have st': "resolve fs x (V, L) = Inr (v, if x \<in> set r then r else r @ [x])"
      using notV Own it rd by simp
    from H(1) obtain new where new: "r = L @ new" "set new \<inter> insert x V = {}"
        "set new \<subseteq> (dependsOn fs)\<^sup>* `` set ds"
      and vv: "insert x V \<subseteq> v" and inv1: "rinv fs v r"
      and g1: "\<forall>g. (g \<in> v \<and> g \<notin> set r) \<longleftrightarrow> (g \<in> insert x V \<and> g \<notin> set L)"
      unfolding rpost_def by blast
    note depsin = H(2)
    have xr: "x \<notin> set r" using g1 xL by blast
    then have st'': "resolve fs x (V, L) = Inr (v, r @ [x])" using st' by simp
    have xv: "x \<in> v" using vv by blast
    have t: "topo (dependsOn fs) (r @ [x])"
      using topo_snoc[of "dependsOn fs" r x] inv1 depsR' depsin unfolding rinv_def by blast
    have inv2: "rinv fs v (r @ [x])"
      using inv1 xr xv t unfolding rinv_def by simp
    have e: "r @ [x] = L @ (new @ [x])" using new(1) by simp
    have d: "set (new @ [x]) \<inter> V = {}" using new(2) notV by auto
    have reach: "set (new @ [x]) \<subseteq> (dependsOn fs)\<^sup>* `` {x}"
    proof
      fix y assume "y \<in> set (new @ [x])"
      then consider "y = x" | "y \<in> set new" by auto
      then show "y \<in> (dependsOn fs)\<^sup>* `` {x}"
      proof cases
        case 1
        then show ?thesis by simp
      next
        case 2
        then obtain d where "d \<in> set ds" "(d, y) \<in> (dependsOn fs)\<^sup>*" using new(3) by blast
        then have "(x, y) \<in> (dependsOn fs)\<^sup>*" using depsR by (meson converse_rtrancl_into_rtrancl)
        then show ?thesis by simp
      qed
    qed
    have g2: "\<forall>g. (g \<in> v \<and> g \<notin> set (r @ [x])) \<longleftrightarrow> (g \<in> V \<and> g \<notin> set L)"
      using g1 notV xv by auto
    have vV: "V \<subseteq> v" using vv by blast
    have ex: "\<exists>new'. r @ [x] = L @ new' \<and> set new' \<inter> V = {} \<and> set new' \<subseteq> (dependsOn fs)\<^sup>* `` {x}"
      using e d reach by (intro exI[of _ "new @ [x]"] conjI)
    have "rpost fs {x} V L v (r @ [x])"
      unfolding rpost_def by (intro conjI) (rule inv2 vV ex g2)+
    then show ?thesis unfolding st'' using notV by simp
  qed
next
  case (2 fs st)
  then show ?case using rpost_refl by simp
next
  case (3 fs dependency rest st)
  note acyc = "3.prems"(1) and known = "3.prems"(2) and arrays = "3.prems"(3)
  have k1: "map_of fs dependency \<noteq> None" using "3.prems"(4) by simp
  have g1: "\<forall>g. g \<in> fst st \<and> g \<notin> set (snd st) \<longrightarrow> (g, dependency) \<in> (dependsOn fs)\<^sup>+"
    using "3.prems"(6) by simp
  from "3.hyps"(1)[OF acyc known arrays k1 "3.prems"(5) g1] obtain st1 where
    r1: "resolve fs dependency st = Inr st1"
    and a: "rpost fs {dependency} (fst st) (snd st) (fst st1) (snd st1)" "dependency \<in> set (snd st1)"
    by blast
  have inv1: "rinv fs (fst st1) (snd st1)" using a(1) unfolding rpost_def by blast
  have greyeq: "\<forall>g. (g \<in> fst st1 \<and> g \<notin> set (snd st1)) \<longleftrightarrow> (g \<in> fst st \<and> g \<notin> set (snd st))"
    using a(1) unfolding rpost_def by blast
  have k2: "\<forall>d\<in>set rest. map_of fs d \<noteq> None" using "3.prems"(4) by simp
  have g2: "\<forall>d\<in>set rest. \<forall>g. g \<in> fst st1 \<and> g \<notin> set (snd st1) \<longrightarrow> (g, d) \<in> (dependsOn fs)\<^sup>+"
    using "3.prems"(6) greyeq by simp
  from "3.hyps"(2)[OF r1 acyc known arrays k2 inv1 g2] obtain st'' where
    r2: "resolve_deps fs rest st1 = Inr st''"
    and c: "rpost fs (set rest) (fst st1) (snd st1) (fst st'') (snd st'')" "set rest \<subseteq> set (snd st'')"
    by blast
  have r: "resolve_deps fs (dependency # rest) st = Inr st''" using r1 r2 by simp
  have p: "rpost fs (set (dependency # rest)) (fst st) (snd st) (fst st'') (snd st'')"
  proof (rule rpost_trans[OF a(1) c(1)])
    show "{dependency} \<subseteq> set (dependency # rest)" by simp
    show "set rest \<subseteq> set (dependency # rest)" by auto
  qed
  obtain n2 where "snd st'' = snd st1 @ n2" using c(1) unfolding rpost_def by blast
  then have "dependency \<in> set (snd st'')" using a(2) by simp
  then show ?case using r p c(2) by simp
qed

lemma chainRegistry_valid: "validateRegistry chainRegistry = Inr ()"
  by (simp add: chainRegistry_def validateRegistry_def validateFeature_def checkCircularDependencies_def
      deps_of_def getProperty_def)

lemma chainRegistry_load: "loadRegistry chainRegistry None = (Inr chainRegistry, Some chainRegistry)"
  by (simp add: loadRegistry_def chainRegistry_valid)

lemma chainRegistry_resolve:
  "resolveDependencies chainRegistry None ''c'' = (Inr [''a'', ''b'', ''c''], Some chainRegistry)"
  unfolding resolveDependencies_def chainRegistry_load
  by (simp add: iterate_def getProperty_def chainRegistry_def)

lemma resolve_top:
  assumes acyc: "\<forall>z. (z, z) \<notin> (dependsOn fs)\<^sup>+"
    and known: "\<forall>a b. (a, b) \<in> dependsOn fs \<longrightarrow> map_of fs b \<noteq> None"
    and arrays: "\<forall>k f. map_of fs k = Some f \<longrightarrow> iterate (dependencies f) \<noteq> None"
    and x: "map_of fs x \<noteq> None"
  shows "\<exists>V' xs. resolve fs x ({}, []) = Inr (V', xs) \<and>
     distinct xs \<and> set xs = (dependsOn fs)\<^sup>* `` {x} \<and> xs \<noteq> [] \<and> last xs = x \<and>
     (\<forall>i<length xs. \<forall>j<length xs. (xs ! i, xs ! j) \<in> dependsOn fs \<longrightarrow> j < i)"
proof -
  have inv0: "rinv fs (fst ({}, [])) (snd ({}::string set, []::string list))"
    by (simp add: rinv_def topo_def)
  have grey0: "\<forall>g. g \<in> fst ({}::string set, []::string list) \<and> g \<notin> set (snd ({}::string set, []::string list))
      \<longrightarrow> (g, x) \<in> (dependsOn fs)\<^sup>+"
    by simp
  from resolve_correct(1)[OF acyc known arrays x inv0 grey0] obtain st' where
    r0: "resolve fs x ({}, []) = Inr st'"
    and H0: "rpost fs {x} (fst ({}::string set, []::string list)) (snd ({}::string set, []::string list)) (fst st') (snd st')"
      "x \<in> set (snd st')" "x \<notin> fst ({}::string set, []::string list) \<longrightarrow> snd st' \<noteq> [] \<and> last (snd st') = x"
    by blast
  obtain V' xs where st': "st' = (V', xs)" by (cases st')
  have r: "resolve fs x ({}, []) = Inr (V', xs)" using r0 st' by simp
  have H: "rpost fs {x} {} [] V' xs" "x \<in> set xs" "xs \<noteq> [] \<and> last xs = x"
    using H0 st' by simp_all
  then have inv: "rinv fs V' xs" unfolding rpost_def by blast
  then have dist: "distinct xs" and tp: "topo (dependsOn fs) xs" unfolding rinv_def by blast+
  from H(1) obtain new where "xs = [] @ new" "set new \<subseteq> (dependsOn fs)\<^sup>* `` {x}"
    unfolding rpost_def by blast
  then have sub: "set xs \<subseteq> (dependsOn fs)\<^sup>* `` {x}" by simp
  have closed: "\<forall>m\<in>set xs. \<forall>e. (m, e) \<in> dependsOn fs \<longrightarrow> e \<in> set xs"
    using topo_closed[OF tp] by blast
  have xin: "x \<in> set xs" using H by blast
  have sup: "(dependsOn fs)\<^sup>* `` {x} \<subseteq> set xs"
  proof
    fix y assume "y \<in> (dependsOn fs)\<^sup>* `` {x}"
    then have "(x, y) \<in> (dependsOn fs)\<^sup>*" by simp
    from closed_rtrancl[OF this xin closed] show "y \<in> set xs" .
  qed
  have order: "j < i" if i: "i < length xs" and j: "j < length xs"
    and e: "(xs ! i, xs ! j) \<in> dependsOn fs" for i j
  proof -
    from tp i e obtain j' where j': "j' < i" "xs ! j' = xs ! j" unfolding topo_def by blast
    then have "j' < length xs" using i by simp
    then have "j' = j" using j'(2) j dist by (simp add: nth_eq_iff_index_eq)
    then show ?thesis using j'(1) by simp
  qed
  have "distinct xs \<and> set xs = (dependsOn fs)\<^sup>* `` {x} \<and> xs \<noteq> [] \<and> last xs = x \<and>
     (\<forall>i<length xs. \<forall>j<length xs. (xs ! i, xs ! j) \<in> dependsOn fs \<longrightarrow> j < i)"
    using dist sub sup H order by blast
  then show ?thesis using r by blast
qed

subsection \<open>Claims about the registry\<close>

text \<open>
  On a registry that validation accepts, \<^verbatim>\<open>resolveDependencies(id)\<close> for an id that is a
  key of the registry returns a list without duplicates whose elements are exactly the
  features reachable from \<open>id\<close> along dependencies (\<open>id\<close> included), whose last element is
  \<open>id\<close>, and in which every dependency stands before each feature that depends on it. An id
  that is neither a key nor the name of an inherited member fails with the not-found
  error; an id that is not a key but names an inherited member fails with a type error.
\<close>

theorem resolveDependencies_closure:
  assumes "loadRegistry parsed cached = (Inr reg, cached')"
    and "validateRegistry reg = Inr ()" and "features reg = Some fs"
  shows "(map_of fs featureId \<noteq> None \<longrightarrow>
      (\<exists>xs. resolveDependencies parsed cached featureId = (Inr xs, cached') \<and> distinct xs \<and>
         set xs = (dependsOn fs)\<^sup>* `` {featureId} \<and> xs \<noteq> [] \<and> last xs = featureId \<and>
         (\<forall>i<length xs. \<forall>j<length xs. (xs ! i, xs ! j) \<in> dependsOn fs \<longrightarrow> j < i))) \<and>
    (map_of fs featureId = None \<and> featureId \<notin> set objectPrototypeMembers \<longrightarrow>
       resolveDependencies parsed cached featureId = (Inl (FeatureNotFound featureId), cached')) \<and>
    (map_of fs featureId = None \<and> featureId \<in> set objectPrototypeMembers \<longrightarrow>
       resolveDependencies parsed cached featureId = (Inl TypeError, cached'))"
proof -
  note ok = validateRegistry_ok[OF assms(2,3)] and arrays = validateRegistry_arrays[OF assms(2,3)]
  have A: "\<exists>xs. resolveDependencies parsed cached featureId = (Inr xs, cached') \<and> distinct xs \<and>
         set xs = (dependsOn fs)\<^sup>* `` {featureId} \<and> xs \<noteq> [] \<and> last xs = featureId \<and>
         (\<forall>i<length xs. \<forall>j<length xs. (xs ! i, xs ! j) \<in> dependsOn fs \<longrightarrow> j < i)"
    if x: "map_of fs featureId \<noteq> None"
  proof -
    from resolve_top[OF conjunct1[OF ok] conjunct2[OF ok] arrays x] obtain V' xs where
      r: "resolve fs featureId ({}, []) = Inr (V', xs)"
      and p: "distinct xs \<and> set xs = (dependsOn fs)\<^sup>* `` {featureId} \<and> xs \<noteq> [] \<and> last xs = featureId \<and>
         (\<forall>i<length xs. \<forall>j<length xs. (xs ! i, xs ! j) \<in> dependsOn fs \<longrightarrow> j < i)"
      by blast
    have "getProperty fs featureId \<noteq> Absent" using getProperty_known[OF x] by auto
    then have "resolveDependencies parsed cached featureId = (Inr xs, cached')"
      unfolding resolveDependencies_def assms(1) using assms(3) r by simp
    then show ?thesis using p by blast
  qed
  have B: "resolveDependencies parsed cached featureId = (Inl (FeatureNotFound featureId), cached')"
    if "map_of fs featureId = None \<and> featureId \<notin> set objectPrototypeMembers"
  proof -
    have "getProperty fs featureId = Absent" using that by (simp add: getProperty_def)
    then show ?thesis unfolding resolveDependencies_def assms(1) using assms(3) by simp
  qed
  have C: "resolveDependencies parsed cached featureId = (Inl TypeError, cached')"
    if "map_of fs featureId = None \<and> featureId \<in> set objectPrototypeMembers"
  proof -
    have "getProperty fs featureId = Inherited" using that by (simp add: getProperty_def)
    then show ?thesis unfolding resolveDependencies_def assms(1) using assms(3) by simp
  qed
  show ?thesis using A B C by blast
qed

theorem resolveDependencies_closure_witness:
  "validateRegistry chainRegistry = Inr () \<and> map_of (features_of chainRegistry) ''b'' \<noteq> None \<and>
   (\<exists>xs. resolveDependencies chainRegistry None ''b'' = (Inr xs, Some chainRegistry) \<and> distinct xs \<and>
      set xs = (dependsOn (features_of chainRegistry))\<^sup>* `` {''b''} \<and> last xs = ''b'')"
proof -
  have f: "features chainRegistry = Some (features_of chainRegistry)"
    by (simp add: features_of_def chainRegistry_def)
  have k: "map_of (features_of chainRegistry) ''b'' \<noteq> None"
    by (simp add: features_of_def chainRegistry_def)
  show ?thesis
    using resolveDependencies_closure[OF chainRegistry_load chainRegistry_valid f, of "''b''"] k chainRegistry_valid
    by blast
qed

text \<open>
  C1. The claim says that an id that is not in the registry fails with the not-found
  error. The test \<^verbatim>\<open>if (!feature)\<close> of \<^verbatim>\<open>resolveDependencies\<close> is made on a plain property
  lookup: on the chain a, b, c, which validation accepts, the id \<^verbatim>\<open>constructor\<close> is not a
  key, the lookup finds the inherited member, and the resolution ends with a type error in
  \<^verbatim>\<open>resolve\<close>, not with the not-found error that the id \<^verbatim>\<open>zzz\<close> gets.
\<close>

theorem resolveDependencies_inherited_name:
  "validateRegistry chainRegistry = Inr () \<and>
   map_of (features_of chainRegistry) ''constructor'' = None \<and>
   resolveDependencies chainRegistry None ''constructor'' = (Inl TypeError, Some chainRegistry) \<and>
   resolveDependencies chainRegistry None ''zzz'' = (Inl (FeatureNotFound ''zzz''), Some chainRegistry)"
proof -
  have f: "features chainRegistry = Some (features_of chainRegistry)"
    by (simp add: features_of_def chainRegistry_def)
  have c: "getProperty (features_of chainRegistry) ''constructor'' = Inherited"
    by (simp add: features_of_def getProperty_def objectPrototypeMembers_def chainRegistry_def)
  have z: "getProperty (features_of chainRegistry) ''zzz'' = Absent"
    by (simp add: features_of_def getProperty_def objectPrototypeMembers_def chainRegistry_def)
  have n: "map_of (features_of chainRegistry) ''constructor'' = None"
    by (simp add: features_of_def chainRegistry_def)
  have 1: "resolveDependencies chainRegistry None ''constructor'' = (Inl TypeError, Some chainRegistry)"
    unfolding resolveDependencies_def chainRegistry_load using f c by simp
  have 2: "resolveDependencies chainRegistry None ''zzz'' = (Inl (FeatureNotFound ''zzz''), Some chainRegistry)"
    unfolding resolveDependencies_def chainRegistry_load using f z by simp
  show ?thesis using chainRegistry_valid n 1 2 by simp
qed

text \<open>
  C3, as stated, fails: the error of a registry with a cycle need not name a feature on the
  cycle. In \<open>cyclicWithUnknown\<close> the features a and b form a cycle, validation stops at the
  unknown dependency of c, which is met first, and neither c nor the unknown id lies on a
  cycle.
\<close>

theorem validateRegistry_cycle_error_counterexample:
  "(''a'', ''a'') \<in> (dependsOn cyclicWithUnknown)\<^sup>+ \<and>
   validateRegistry \<lparr>registry_version = Some ''1.0.0'', features = Some cyclicWithUnknown\<rparr>
     = Inl (UnknownDependency ''c'' ''zzz'') \<and>
   (''c'', ''c'') \<notin> (dependsOn cyclicWithUnknown)\<^sup>+ \<and>
   (''zzz'', ''zzz'') \<notin> (dependsOn cyclicWithUnknown)\<^sup>+"
proof (intro conjI)
  have "(''a'', ''b'') \<in> dependsOn cyclicWithUnknown" "(''b'', ''a'') \<in> dependsOn cyclicWithUnknown"
    unfolding dependsOn_cyclicWithUnknown by simp_all
  then show "(''a'', ''a'') \<in> (dependsOn cyclicWithUnknown)\<^sup>+" by (meson trancl.intros)
next
  show "validateRegistry \<lparr>registry_version = Some ''1.0.0'', features = Some cyclicWithUnknown\<rparr>
     = Inl (UnknownDependency ''c'' ''zzz'')"
    by (simp add: validateRegistry_def cyclicWithUnknown_def validateFeature_def
        checkCircularDependencies_def deps_of_def getProperty_def objectPrototypeMembers_def)
next
  have nz: "(''zzz'', y) \<notin> dependsOn cyclicWithUnknown" for y
    unfolding dependsOn_cyclicWithUnknown by simp
  then show z: "(''zzz'', ''zzz'') \<notin> (dependsOn cyclicWithUnknown)\<^sup>+" by (meson tranclD)
  show "(''c'', ''c'') \<notin> (dependsOn cyclicWithUnknown)\<^sup>+"
  proof
    assume "(''c'', ''c'') \<in> (dependsOn cyclicWithUnknown)\<^sup>+"
    then obtain y where y: "(''c'', y) \<in> dependsOn cyclicWithUnknown"
      and yc: "(y, ''c'') \<in> (dependsOn cyclicWithUnknown)\<^sup>*" by (meson tranclD)
    from y have "y = ''zzz''" unfolding dependsOn_cyclicWithUnknown by simp
    with yc have "(''zzz'', ''c'') \<in> (dependsOn cyclicWithUnknown)\<^sup>*" by simp
    then show False
    proof (cases rule: converse_rtranclE)
      case base
      then show ?thesis by simp
    next
      case (step y)
      then show ?thesis using nz by blast
    qed
  qed
qed

text \<open>
  C3, amended. A registry whose dependency graph contains a cycle always fails validation.
  Whenever the reported error is the circular-dependency error, the feature it names lies on
  a cycle; and it is that error whenever the registry has a version, every descriptor has
  all required fields with an array of dependencies, and every dependency id is a key.
  Validation also fails when a descriptor misses a required field and when a declared
  dependency is not a key of the registry.
\<close>

theorem validateRegistry_rejects:
  assumes "features reg = Some fs"
  shows "((\<exists>x. (x, x) \<in> (dependsOn fs)\<^sup>+) \<longrightarrow> (\<exists>e. validateRegistry reg = Inl e)) \<and>
    (\<forall>x. validateRegistry reg = Inl (CircularDependency x) \<longrightarrow> (x, x) \<in> (dependsOn fs)\<^sup>+) \<and>
    ((\<exists>x. (x, x) \<in> (dependsOn fs)\<^sup>+) \<and> registry_version reg \<noteq> None \<and> registry_version reg \<noteq> Some [] \<and>
       (\<forall>(k, f)\<in>set fs. \<not> missingRequiredField f \<and> (\<exists>ds. dependencies f = Some (Array ds))) \<and>
       (\<forall>a b. (a, b) \<in> dependsOn fs \<longrightarrow> map_of fs b \<noteq> None) \<longrightarrow>
       (\<exists>x. validateRegistry reg = Inl (CircularDependency x) \<and> (x, x) \<in> (dependsOn fs)\<^sup>+)) \<and>
    ((\<exists>(k, f)\<in>set fs. missingRequiredField f) \<longrightarrow> (\<exists>e. validateRegistry reg = Inl e)) \<and>
    ((\<exists>a b. (a, b) \<in> dependsOn fs \<and> map_of fs b = None) \<longrightarrow> (\<exists>e. validateRegistry reg = Inl e))"
proof (intro conjI impI allI)
  assume "\<exists>x. (x, x) \<in> (dependsOn fs)\<^sup>+"
  then show "\<exists>e. validateRegistry reg = Inl e"
    using validateRegistry_ok[OF _ assms] sum_unit_cases[of "validateRegistry reg"] by blast
next
  fix x assume "validateRegistry reg = Inl (CircularDependency x)"
  then show "(x, x) \<in> (dependsOn fs)\<^sup>+" using validateRegistry_circular assms by blast
next
  assume a: "(\<exists>x. (x, x) \<in> (dependsOn fs)\<^sup>+) \<and> registry_version reg \<noteq> None \<and> registry_version reg \<noteq> Some [] \<and>
       (\<forall>(k, f)\<in>set fs. \<not> missingRequiredField f \<and> (\<exists>ds. dependencies f = Some (Array ds))) \<and>
       (\<forall>a b. (a, b) \<in> dependsOn fs \<longrightarrow> map_of fs b \<noteq> None)"
  then have vf: "validateFeatures fs = Inr ()" using validateFeatures_ok by blast
  obtain ver where ver: "registry_version reg = Some ver" "ver \<noteq> []" using a by blast
  have eq: "validateRegistry reg = checkCircularDependencies fs"
    using vf ver assms unfolding validateRegistry_def by simp
  have "checkCircularDependencies fs \<noteq> Inr ()" using checkCircularDependencies_ok a by blast
  then obtain e where e: "checkCircularDependencies fs = Inl e"
    using sum_unit_cases[of "checkCircularDependencies fs"] by blast
  from checkCircularDependencies_error[OF e] a
  obtain z where "e = CircularDependency z" "(z, z) \<in> (dependsOn fs)\<^sup>+"
    unfolding errorJustified_def by blast
  then show "\<exists>x. validateRegistry reg = Inl (CircularDependency x) \<and> (x, x) \<in> (dependsOn fs)\<^sup>+"
    using eq e by simp
next
  assume "\<exists>(k, f)\<in>set fs. missingRequiredField f"
  then obtain k f where "(k, f) \<in> set fs" "missingRequiredField f" by blast
  then obtain e where "validateFeatures fs = Inl e" using validateFeatures_missing by blast
  then show "\<exists>e. validateRegistry reg = Inl e"
    using assms unfolding validateRegistry_def by simp
next
  assume "\<exists>a b. (a, b) \<in> dependsOn fs \<and> map_of fs b = None"
  then show "\<exists>e. validateRegistry reg = Inl e"
    using validateRegistry_ok[OF _ assms] sum_unit_cases[of "validateRegistry reg"] by blast
qed

theorem validateRegistry_rejects_witness:
  "features \<lparr>registry_version = Some ''1.0.0'', features = Some twoCycle\<rparr> = Some twoCycle \<and>
   validateRegistry \<lparr>registry_version = Some ''1.0.0'', features = Some twoCycle\<rparr> = Inl (CircularDependency ''b'') \<and>
   (''b'', ''b'') \<in> (dependsOn twoCycle)\<^sup>+"
  using validateRegistry_rejects[of "\<lparr>registry_version = Some ''1.0.0'', features = Some twoCycle\<rparr>" twoCycle]
    twoCycle_result by simp

section \<open>Properties of the installer\<close>

subsection \<open>What a stage may change\<close>

text \<open>
  \<open>stageWithin d r r'\<close>: from \<open>r\<close> to \<open>r'\<close> only files below \<open>d\<close> changed, the three arrays
  only grew, by paths below \<open>d\<close>, and the environment is the same. \<open>keepsExisting\<close>: no
  file that existed was changed, and every path added to \<^verbatim>\<open>installedFiles\<close> is a new file.
  \<open>migrationTemplates\<close> and \<open>seedTemplates\<close> are the template files that the migration stage
  and the seed stage process: those whose name ends in \<^verbatim>\<open>.sql\<close>.
\<close>

definition sameEnvironment :: "world \<Rightarrow> world \<Rightarrow> bool" where
  "sameEnvironment w w' \<longleftrightarrow>
     unwritable w' = unwritable w \<and> unreadable w' = unreadable w \<and> cliBroken w' = cliBroken w \<and>
     configUnwritable w' = configUnwritable w \<and> configFile w' = configFile w"

definition stageWithin :: "path \<Rightarrow> run \<Rightarrow> run \<Rightarrow> bool" where
  "stageWithin d r r' \<longleftrightarrow>
     (\<forall>p. \<not> prefix d p \<longrightarrow> fileContent (disk r') p = fileContent (disk r) p) \<and>
     (\<exists>added. installedFiles r' = installedFiles r @ added \<and> (\<forall>p\<in>set added. prefix d p)) \<and>
     (\<exists>added. skippedFiles r' = skippedFiles r @ added \<and> (\<forall>p\<in>set added. prefix d p)) \<and>
     (\<exists>added. errors r' = errors r @ added) \<and>
     sameEnvironment (disk r) (disk r')"

definition keepsExisting :: "run \<Rightarrow> run \<Rightarrow> bool" where
  "keepsExisting r r' \<longleftrightarrow>
     (\<forall>p. fileContent (disk r) p \<noteq> None \<longrightarrow> fileContent (disk r') p = fileContent (disk r) p) \<and>
     (\<exists>added. installedFiles r' = installedFiles r @ added \<and> distinct added \<and>
        (\<forall>p\<in>set added. fileContent (disk r) p = None \<and> fileContent (disk r') p \<noteq> None))"

definition schemasDir :: "config \<Rightarrow> path" where
  "schemasDir config = sourceDir config @ [''schemas'']"

definition seedText :: "world \<Rightarrow> path \<Rightarrow> string" where
  "seedText w targetSeedPath = (case fileContent w targetSeedPath of None \<Rightarrow> [] | Some content \<Rightarrow> content)"

definition seedBlock :: "string \<Rightarrow> featureFiles \<Rightarrow> string" where
  "seedBlock featureId tpl =
     (case seed tpl of
        None \<Rightarrow> []
      | Some allFiles \<Rightarrow>
          fst (collectSeeds (filter isSql allFiles) (newline @ beginMarker featureId @ newline, [])) @
          endMarker featureId @ newline)"



lemmas installer_defs =
  installFeature_def installSchemas_def installMigrations_def installFunctions_def installSeeds_def
  installMigration_def installFunction_def updateInstalledFeatures_def initialRun_def failure_def
  getTargetPath_def applyPrefix_def applyFilePrefix_def isSkip_def isOverwrite_def
  copyFile_def writeFile_def readFile_def createMigration_def createFunction_def saveConfig_def
  mkdirs_def dirname_def join_def basename_def extname_def endsWith_def isSql_def
  fileExists_def directoryExists_def getMigrationsPath_def getFunctionsPath_def
  includesText_def getProperty_def version_of_def

lemma sameEnvironment_refl: "sameEnvironment w w"
  by (simp add: sameEnvironment_def)

lemma sameEnvironment_trans: "sameEnvironment a b \<Longrightarrow> sameEnvironment b c \<Longrightarrow> sameEnvironment a c"
  by (simp add: sameEnvironment_def)

lemma stageWithin_refl: "stageWithin d r r"
  by (simp add: stageWithin_def sameEnvironment_refl)

lemma stageWithin_trans:
  assumes a: "stageWithin d r r1" and b: "stageWithin d r1 r2"
  shows "stageWithin d r r2"
proof -
  from a obtain i1 s1 e1 where 1:
    "\<forall>p. \<not> prefix d p \<longrightarrow> fileContent (disk r1) p = fileContent (disk r) p"
    "installedFiles r1 = installedFiles r @ i1" "\<forall>p\<in>set i1. prefix d p"
    "skippedFiles r1 = skippedFiles r @ s1" "\<forall>p\<in>set s1. prefix d p"
    "errors r1 = errors r @ e1" "sameEnvironment (disk r) (disk r1)"
    unfolding stageWithin_def by blast
  from b obtain i2 s2 e2 where 2:
    "\<forall>p. \<not> prefix d p \<longrightarrow> fileContent (disk r2) p = fileContent (disk r1) p"
    "installedFiles r2 = installedFiles r1 @ i2" "\<forall>p\<in>set i2. prefix d p"
    "skippedFiles r2 = skippedFiles r1 @ s2" "\<forall>p\<in>set s2. prefix d p"
    "errors r2 = errors r1 @ e2" "sameEnvironment (disk r1) (disk r2)"
    unfolding stageWithin_def by blast
  have f: "\<forall>p. \<not> prefix d p \<longrightarrow> fileContent (disk r2) p = fileContent (disk r) p"
    using 1(1) 2(1) by simp
  have i: "\<exists>added. installedFiles r2 = installedFiles r @ added \<and> (\<forall>p\<in>set added. prefix d p)"
    using 1(2,3) 2(2,3) by (intro exI[of _ "i1 @ i2"]) auto
  have s: "\<exists>added. skippedFiles r2 = skippedFiles r @ added \<and> (\<forall>p\<in>set added. prefix d p)"
    using 1(4,5) 2(4,5) by (intro exI[of _ "s1 @ s2"]) auto
  have e: "\<exists>added. errors r2 = errors r @ added"
    using 1(6) 2(6) by simp
  have env: "sameEnvironment (disk r) (disk r2)"
    using 1(7) 2(7) by (rule sameEnvironment_trans)
  show ?thesis unfolding stageWithin_def by (intro conjI) (rule f i s e env)+
qed

lemma copyFile_Inr:
  assumes "copyFile src dest w = Inr w'"
  shows "\<exists>content. src = Some content \<and> dest \<notin> unwritable w \<and>
     w' = (mkdirs (dirname dest) w)\<lparr>fileContent := (fileContent w)(dest \<mapsto> content)\<rparr>"
  using assms unfolding copyFile_def by (auto split: option.splits if_splits)

lemma copyFile_effect:
  assumes "copyFile src dest w = Inr w'"
  shows "fileContent w' = (fileContent w)(dest := src)" and "sameEnvironment w w'"
    and "cliCalls w' = cliCalls w" and "clock w' = clock w" and "src \<noteq> None"
    and "directories w \<subseteq> directories w'"
proof -
  from copyFile_Inr[OF assms] obtain content where c: "src = Some content"
    and w': "w' = (mkdirs (dirname dest) w)\<lparr>fileContent := (fileContent w)(dest \<mapsto> content)\<rparr>"
    by blast
  show "fileContent w' = (fileContent w)(dest := src)" using c w' by simp
  show "sameEnvironment w w'" using w' by (simp add: sameEnvironment_def mkdirs_def)
  show "cliCalls w' = cliCalls w" using w' by (simp add: mkdirs_def)
  show "clock w' = clock w" using w' by (simp add: mkdirs_def)
  show "src \<noteq> None" using c by simp
  show "directories w \<subseteq> directories w'" using w' by (auto simp: mkdirs_def)
qed

lemma copyFile_succeeds:
  "src \<noteq> None \<Longrightarrow> dest \<notin> unwritable w \<Longrightarrow> \<exists>w'. copyFile src dest w = Inr w'"
  unfolding copyFile_def by (auto split: option.splits)

lemma writeFile_effect:
  assumes "writeFile dest content w = Inr w'"
  shows "fileContent w' = (fileContent w)(dest \<mapsto> content)" and "sameEnvironment w w'"
    and "cliCalls w' = cliCalls w" and "clock w' = clock w" and "dest \<notin> unwritable w"
proof -
  from assms have u: "dest \<notin> unwritable w"
    and w': "w' = (mkdirs (dirname dest) w)\<lparr>fileContent := (fileContent w)(dest \<mapsto> content)\<rparr>"
    unfolding writeFile_def by (auto split: if_splits)
  show "fileContent w' = (fileContent w)(dest \<mapsto> content)" using w' by simp
  show "sameEnvironment w w'" using w' by (simp add: sameEnvironment_def mkdirs_def)
  show "cliCalls w' = cliCalls w" using w' by (simp add: mkdirs_def)
  show "clock w' = clock w" using w' by (simp add: mkdirs_def)
  show "dest \<notin> unwritable w" by (rule u)
qed

lemma getTargetPath_schemas: "prefix (schemasDir config) (getTargetPath config ''schemas'' rel)"
  by (simp add: getTargetPath_def schemasDir_def)

lemma installSchemaFiles_within:
  "installSchemaFiles config res fs r = (e, r') \<Longrightarrow> stageWithin (schemasDir config) r r'"
proof (induct fs arbitrary: r)
  case Nil
  then show ?case by (simp add: stageWithin_refl)
next
  case (Cons f fs)
  obtain rel content where f: "f = (rel, content)" by (cases f)
  let ?t = "getTargetPath config ''schemas'' rel"
  have pt: "prefix (schemasDir config) ?t" by (rule getTargetPath_schemas)
  show ?case
  proof (cases "isSkip (find (\<lambda>c. path c = ?t) res)")
    case True
    let ?r1 = "r\<lparr>skippedFiles := skippedFiles r @ [?t]\<rparr>"
    have "installSchemaFiles config res fs ?r1 = (e, r')" using Cons.prems f True by simp
    then have 2: "stageWithin (schemasDir config) ?r1 r'" by (rule Cons.hyps)
    have 1: "stageWithin (schemasDir config) r ?r1"
      unfolding stageWithin_def using pt by (simp add: sameEnvironment_refl)
    show ?thesis using stageWithin_trans[OF 1 2] .
  next
    case False
    show ?thesis
    proof (cases "copyFile content ?t (disk r)")
      case (Inl msg)
      then have "r' = r" using Cons.prems f False by simp
      then show ?thesis by (simp add: stageWithin_refl)
    next
      case (Inr w)
      let ?r1 = "r\<lparr>disk := w, installedFiles := installedFiles r @ [?t]\<rparr>"
      have "installSchemaFiles config res fs ?r1 = (e, r')" using Cons.prems f False Inr by simp
      then have 2: "stageWithin (schemasDir config) ?r1 r'" by (rule Cons.hyps)
      note c = copyFile_effect[OF Inr]
      have 1: "stageWithin (schemasDir config) r ?r1"
        unfolding stageWithin_def using pt c(1,2) by auto
      show ?thesis using stageWithin_trans[OF 1 2] .
    qed
  qed
qed

lemma installSchemaFiles_skip_untouched:
  "installSchemaFiles config res fs r = (e, r') \<Longrightarrow> isSkip (find (\<lambda>c. path c = p) res) \<Longrightarrow>
   fileContent (disk r') p = fileContent (disk r) p \<and> p \<notin> set (installedFiles r') - set (installedFiles r)"
proof (induct fs arbitrary: r)
  case Nil
  then show ?case by simp
next
  case (Cons f fs)
  obtain rel content where f: "f = (rel, content)" by (cases f)
  let ?t = "getTargetPath config ''schemas'' rel"
  show ?case
  proof (cases "isSkip (find (\<lambda>c. path c = ?t) res)")
    case True
    let ?r1 = "r\<lparr>skippedFiles := skippedFiles r @ [?t]\<rparr>"
    have "installSchemaFiles config res fs ?r1 = (e, r')" using Cons.prems f True by simp
    from Cons.hyps[OF this Cons.prems(2)] show ?thesis by simp
  next
    case False
    then have ne: "?t \<noteq> p" using Cons.prems(2) by auto
    show ?thesis
    proof (cases "copyFile content ?t (disk r)")
      case (Inl msg)
      then have "r' = r" using Cons.prems f False by simp
      then show ?thesis by simp
    next
      case (Inr w)
      let ?r1 = "r\<lparr>disk := w, installedFiles := installedFiles r @ [?t]\<rparr>"
      have "installSchemaFiles config res fs ?r1 = (e, r')" using Cons.prems f False Inr by simp
      from Cons.hyps[OF this Cons.prems(2)] copyFile_effect(1)[OF Inr] ne show ?thesis by auto
    qed
  qed
qed

lemma keepsExisting_refl: "keepsExisting r r"
  by (simp add: keepsExisting_def)

lemma keepsExisting_trans:
  assumes a: "keepsExisting r r1" and b: "keepsExisting r1 r2"
  shows "keepsExisting r r2"
proof -
  from a obtain a1 where 1:
    "\<And>p. fileContent (disk r) p \<noteq> None \<Longrightarrow> fileContent (disk r1) p = fileContent (disk r) p"
    "installedFiles r1 = installedFiles r @ a1" "distinct a1"
    "\<And>p. p \<in> set a1 \<Longrightarrow> fileContent (disk r) p = None \<and> fileContent (disk r1) p \<noteq> None"
    unfolding keepsExisting_def by blast
  from b obtain a2 where 2:
    "\<And>p. fileContent (disk r1) p \<noteq> None \<Longrightarrow> fileContent (disk r2) p = fileContent (disk r1) p"
    "installedFiles r2 = installedFiles r1 @ a2" "distinct a2"
    "\<And>p. p \<in> set a2 \<Longrightarrow> fileContent (disk r1) p = None \<and> fileContent (disk r2) p \<noteq> None"
    unfolding keepsExisting_def by blast
  have k: "\<forall>p. fileContent (disk r) p \<noteq> None \<longrightarrow> fileContent (disk r2) p = fileContent (disk r) p"
    using 1(1) 2(1) by metis
  have e: "installedFiles r2 = installedFiles r @ (a1 @ a2)" using 1(2) 2(2) by simp
  have disj: "set a1 \<inter> set a2 = {}" using 1(4) 2(4) by blast
  have d: "distinct (a1 @ a2)" using 1(3) 2(3) disj by simp
  have f: "\<forall>p\<in>set (a1 @ a2). fileContent (disk r) p = None \<and> fileContent (disk r2) p \<noteq> None"
  proof
    fix p assume "p \<in> set (a1 @ a2)"
    then consider "p \<in> set a1" | "p \<in> set a2" by auto
    then show "fileContent (disk r) p = None \<and> fileContent (disk r2) p \<noteq> None"
    proof cases
      case 1
      then show ?thesis using \<open>\<And>p. p \<in> set a1 \<Longrightarrow> _\<close> 2(1) by metis
    next
      case 2
      then show ?thesis using \<open>\<And>p. p \<in> set a2 \<Longrightarrow> _\<close> 1(1) by metis
    qed
  qed
  have "\<exists>added. installedFiles r2 = installedFiles r @ added \<and> distinct added \<and>
        (\<forall>p\<in>set added. fileContent (disk r) p = None \<and> fileContent (disk r2) p \<noteq> None)"
    using e d f by (intro exI[of _ "a1 @ a2"] conjI)
  then show ?thesis unfolding keepsExisting_def using k by blast
qed

lemma createMigration_effect:
  assumes "createMigration n w = (res, w')"
  shows "sameEnvironment w w'"
    and "\<And>p. fileContent w p \<noteq> None \<Longrightarrow> fileContent w' p = fileContent w p"
    and "\<And>p. \<not> prefix getMigrationsPath p \<Longrightarrow> fileContent w' p = fileContent w p"
    and "\<And>e. res = Inl e \<Longrightarrow> fileContent w' = fileContent w"
    and "\<And>file. res = Inr file \<Longrightarrow> fileContent w (join getMigrationsPath file) = None \<and>
           fileContent w' = (fileContent w)(join getMigrationsPath file \<mapsto> []) \<and>
           join getMigrationsPath file \<notin> unwritable w"
proof -
  let ?newPath = "join getMigrationsPath (digits (clock w) @ ''_'' @ n @ ''.sql'')"
  have pre: "prefix getMigrationsPath ?newPath" by (simp add: join_def)
  consider (broken) "n \<in> cliBroken w"
    | (taken) "n \<notin> cliBroken w" "fileContent w ?newPath \<noteq> None \<or> ?newPath \<in> unwritable w"
    | (ok) "n \<notin> cliBroken w" "fileContent w ?newPath = None" "?newPath \<notin> unwritable w"
    by blast
  then have "sameEnvironment w w' \<and>
      (\<forall>p. fileContent w p \<noteq> None \<longrightarrow> fileContent w' p = fileContent w p) \<and>
      (\<forall>p. \<not> prefix getMigrationsPath p \<longrightarrow> fileContent w' p = fileContent w p) \<and>
      (\<forall>e. res = Inl e \<longrightarrow> fileContent w' = fileContent w) \<and>
      (\<forall>file. res = Inr file \<longrightarrow> fileContent w (join getMigrationsPath file) = None \<and>
           fileContent w' = (fileContent w)(join getMigrationsPath file \<mapsto> []) \<and>
           join getMigrationsPath file \<notin> unwritable w)"
  proof cases
    case broken
    then have "res = Inl ''Failed to create migration: the command failed''"
      and "w' = w\<lparr>cliCalls := cliCalls w @ [MigrationNew n], clock := Suc (clock w)\<rparr>"
      using assms unfolding createMigration_def by (simp_all add: Let_def)
    then show ?thesis by (simp add: sameEnvironment_def)
  next
    case taken
    then have "res = Inl ''Failed to create migration: the file exists or cannot be written''"
      and "w' = w\<lparr>cliCalls := cliCalls w @ [MigrationNew n], clock := Suc (clock w)\<rparr>"
      using assms unfolding createMigration_def by (auto simp: Let_def)
    then show ?thesis by (simp add: sameEnvironment_def)
  next
    case ok
    then have r: "res = Inr (digits (clock w) @ ''_'' @ n @ ''.sql'')"
      and w': "w' = (mkdirs getMigrationsPath (w\<lparr>cliCalls := cliCalls w @ [MigrationNew n], clock := Suc (clock w)\<rparr>))
          \<lparr>fileContent := (fileContent w)(?newPath \<mapsto> [])\<rparr>"
      using assms unfolding createMigration_def by (simp_all add: Let_def)
    have fc: "fileContent w' = (fileContent w)(?newPath \<mapsto> [])" using w' by simp
    have env: "sameEnvironment w w'" using w' by (simp add: sameEnvironment_def mkdirs_def)
    have a: "\<forall>p. fileContent w p \<noteq> None \<longrightarrow> fileContent w' p = fileContent w p"
      using fc ok(2) by auto
    have b: "\<forall>p. \<not> prefix getMigrationsPath p \<longrightarrow> fileContent w' p = fileContent w p"
      using fc pre by auto
    show ?thesis using env a b r fc ok by simp
  qed
  then show "sameEnvironment w w'"
    and "\<And>p. fileContent w p \<noteq> None \<Longrightarrow> fileContent w' p = fileContent w p"
    and "\<And>p. \<not> prefix getMigrationsPath p \<Longrightarrow> fileContent w' p = fileContent w p"
    and "\<And>e. res = Inl e \<Longrightarrow> fileContent w' = fileContent w"
    and "\<And>file. res = Inr file \<Longrightarrow> fileContent w (join getMigrationsPath file) = None \<and>
           fileContent w' = (fileContent w)(join getMigrationsPath file \<mapsto> []) \<and>
           join getMigrationsPath file \<notin> unwritable w"
    by blast+
qed

lemma installMigration_cases:
  obtains (failed) e w1 where
      "installMigration config mf r = r\<lparr>disk := w1, errors := errors r @ [e]\<rparr>"
      "fileContent w1 = fileContent (disk r) \<or>
       (\<exists>newFile. fileContent (disk r) (join getMigrationsPath newFile) = None \<and>
          fileContent w1 = (fileContent (disk r))(join getMigrationsPath newFile \<mapsto> []))"
      "sameEnvironment (disk r) w1"
  | (installed) newFile content w2 where
      "installMigration config mf r =
         r\<lparr>disk := w2, installedFiles := installedFiles r @ [join getMigrationsPath newFile]\<rparr>"
      "fileContent (disk r) (join getMigrationsPath newFile) = None"
      "fileContent w2 = (fileContent (disk r))(join getMigrationsPath newFile \<mapsto> content)"
      "snd mf = Some content"
      "sameEnvironment (disk r) w2"
proof (cases "snd mf")
  case None
  have "installMigration config mf r = r\<lparr>disk := disk r, errors := errors r @
     [migrationError (fst mf) (''Failed to read file: '' @ readError)]\<rparr>"
    using None unfolding installMigration_def by (simp add: Let_def)
  then show ?thesis using failed sameEnvironment_refl by blast
next
  case (Some content)
  let ?n = "render (applyPrefix config [basename (fst mf) ''.sql''])"
  obtain res w1 where cm: "createMigration ?n (disk r) = (res, w1)" by (cases "createMigration ?n (disk r)")
  note ce = createMigration_effect[OF cm]
  show ?thesis
  proof (cases res)
    case (Inl e)
    have "installMigration config mf r = r\<lparr>disk := w1, errors := errors r @
       [migrationError (fst mf) e]\<rparr>"
      using Some cm Inl unfolding installMigration_def by (simp add: Let_def)
    moreover have "fileContent w1 = fileContent (disk r)" using ce(4)[OF Inl] .
    ultimately show ?thesis using failed ce(1) by blast
  next
    case (Inr newFile)
    note f = ce(5)[OF Inr]
    show ?thesis
    proof (cases "writeFile (join getMigrationsPath newFile) content w1")
      case (Inl e)
      have "installMigration config mf r = r\<lparr>disk := w1, errors := errors r @
         [migrationError (fst mf) e]\<rparr>"
        using Some cm Inr Inl unfolding installMigration_def by (simp add: Let_def)
      then show ?thesis using failed[of _ w1] f ce(1) by blast
    next
      case w: (Inr w2)
      note we = writeFile_effect[OF w]
      have 1: "installMigration config mf r =
         r\<lparr>disk := w2, installedFiles := installedFiles r @ [join getMigrationsPath newFile]\<rparr>"
        using Some cm Inr w unfolding installMigration_def by (simp add: Let_def)
      have 2: "fileContent w2 = (fileContent (disk r))(join getMigrationsPath newFile \<mapsto> content)"
        using we(1) f by simp
      have 3: "sameEnvironment (disk r) w2" using ce(1) we(2) by (rule sameEnvironment_trans)
      show ?thesis using installed[OF 1 conjunct1[OF f] 2 Some 3] .
    qed
  qed
qed

lemma installMigration_within:
  "stageWithin getMigrationsPath r (installMigration config mf r) \<and>
   keepsExisting r (installMigration config mf r) \<and>
   skippedFiles (installMigration config mf r) = skippedFiles r"
proof (cases rule: installMigration_cases[where config=config and mf=mf and r=r])
  case (failed e w1)
  have pre: "prefix getMigrationsPath (join getMigrationsPath newFile)" for newFile
    by (simp add: join_def)
  have fr: "\<forall>p. \<not> prefix getMigrationsPath p \<longrightarrow> fileContent w1 p = fileContent (disk r) p"
    using failed(2) pre by auto
  have ke: "\<forall>p. fileContent (disk r) p \<noteq> None \<longrightarrow> fileContent w1 p = fileContent (disk r) p"
    using failed(2) by auto
  show ?thesis unfolding failed(1) stageWithin_def keepsExisting_def
    using fr ke failed(3) by simp
next
  case (installed newFile content w2)
  have pre: "prefix getMigrationsPath (join getMigrationsPath newFile)"
    by (simp add: join_def)
  have fr: "\<forall>p. \<not> prefix getMigrationsPath p \<longrightarrow> fileContent w2 p = fileContent (disk r) p"
    using installed(3) pre by auto
  have ke: "\<forall>p. fileContent (disk r) p \<noteq> None \<longrightarrow> fileContent w2 p = fileContent (disk r) p"
    using installed(2,3) by auto
  have nn: "fileContent w2 (join getMigrationsPath newFile) \<noteq> None" using installed(3) by simp
  show ?thesis unfolding installed(1) stageWithin_def keepsExisting_def
    using fr ke installed(2,5) pre nn by simp
qed

lemma installMigrations_within:
  "stageWithin getMigrationsPath r (installMigrations config tpl r) \<and>
   keepsExisting r (installMigrations config tpl r) \<and>
   skippedFiles (installMigrations config tpl r) = skippedFiles r"
proof -
  have "stageWithin getMigrationsPath r (foldl (\<lambda>r file. installMigration config file r) r fs) \<and>
      keepsExisting r (foldl (\<lambda>r file. installMigration config file r) r fs) \<and>
      skippedFiles (foldl (\<lambda>r file. installMigration config file r) r fs) = skippedFiles r" for fs
  proof (induct fs arbitrary: r)
    case Nil
    then show ?case by (simp add: stageWithin_refl keepsExisting_refl)
  next
    case (Cons f fs)
    note a = installMigration_within[of r config f]
    note b = Cons.hyps[of "installMigration config f r"]
    show ?case using a b stageWithin_trans keepsExisting_trans by (simp, blast)
  qed
  then show ?thesis unfolding installMigrations_def
    by (cases "migrations tpl") (simp_all add: stageWithin_refl keepsExisting_refl)
qed

lemma createFunction_effect:
  assumes "createFunction n w = (res, w')"
  shows "sameEnvironment w w'"
    and "\<And>p. \<not> prefix getFunctionsPath p \<Longrightarrow> fileContent w' p = fileContent w p"
    and "cliCalls w' = cliCalls w @ [FunctionsNew n]"
    and "n \<notin> cliBroken w \<Longrightarrow> res = Inr n"
proof -
  have pre: "prefix getFunctionsPath (join (join getFunctionsPath n) ''index.ts'')"
    by (simp add: join_def)
  show "sameEnvironment w w'"
    using assms unfolding createFunction_def
    by (auto simp: Let_def sameEnvironment_def mkdirs_def split: if_splits)
  show "cliCalls w' = cliCalls w @ [FunctionsNew n]"
    using assms unfolding createFunction_def
    by (auto simp: Let_def mkdirs_def split: if_splits)
  show "n \<notin> cliBroken w \<Longrightarrow> res = Inr n"
    using assms unfolding createFunction_def by (auto simp: Let_def)
  show "fileContent w' p = fileContent w p" if "\<not> prefix getFunctionsPath p" for p
  proof -
    have "p \<noteq> join (join getFunctionsPath n) ''index.ts''" using that pre by auto
    then show ?thesis
      using assms unfolding createFunction_def
      by (auto simp: Let_def mkdirs_def split: if_splits)
  qed
qed

lemma copyFunctionFiles_within:
  "copyFunctionFiles t fs r = (e, r') \<Longrightarrow> prefix d t \<Longrightarrow>
   stageWithin d r r' \<and> cliCalls (disk r') = cliCalls (disk r) \<and>
   skippedFiles r' = skippedFiles r \<and> errors r' = errors r"
proof (induct fs arbitrary: r)
  case Nil
  then show ?case by (simp add: stageWithin_refl)
next
  case (Cons f fs)
  obtain rel content where f: "f = (rel, content)" by (cases f)
  have pt: "prefix d (t @ rel)" using Cons.prems(2) by (meson prefix_order.trans prefixI)
  show ?case
  proof (cases "copyFile content (t @ rel) (disk r)")
    case (Inl msg)
    then have "r' = r" using Cons.prems(1) f by simp
    then show ?thesis by (simp add: stageWithin_refl)
  next
    case (Inr w)
    let ?r1 = "r\<lparr>disk := w, installedFiles := installedFiles r @ [t @ rel]\<rparr>"
    have "copyFunctionFiles t fs ?r1 = (e, r')" using Cons.prems(1) f Inr by simp
    note 2 = Cons.hyps[OF this Cons.prems(2)]
    note c = copyFile_effect[OF Inr]
    have 1: "stageWithin d r ?r1"
      unfolding stageWithin_def using pt c(1,2) by auto
    have "stageWithin d r r'" using stageWithin_trans[OF 1] 2 by blast
    then show ?thesis using 2 c(3) by simp
  qed
qed

lemma copyFunctionFiles_all:
  assumes "\<forall>f\<in>set fs. snd f \<noteq> None \<and> t @ fst f \<notin> unwritable (disk r)"
  shows "\<exists>r'. copyFunctionFiles t fs r = (None, r') \<and>
     installedFiles r' = installedFiles r @ map (\<lambda>f. t @ fst f) fs \<and>
     (distinct (map fst fs) \<longrightarrow> (\<forall>f\<in>set fs. fileContent (disk r') (t @ fst f) = snd f)) \<and>
     (\<forall>p. p \<notin> (\<lambda>f. t @ fst f) ` set fs \<longrightarrow> fileContent (disk r') p = fileContent (disk r) p)"
  using assms
proof (induct fs arbitrary: r)
  case Nil
  then show ?case by simp
next
  case (Cons f fs)
  obtain rel content where f: "f = (rel, content)" by (cases f)
  have "content \<noteq> None" "t @ rel \<notin> unwritable (disk r)" using Cons.prems f by auto
  then obtain w where w: "copyFile content (t @ rel) (disk r) = Inr w"
    using copyFile_succeeds by blast
  note c = copyFile_effect[OF w]
  let ?r1 = "r\<lparr>disk := w, installedFiles := installedFiles r @ [t @ rel]\<rparr>"
  have "unwritable w = unwritable (disk r)" using c(2) by (simp add: sameEnvironment_def)
  then have "\<forall>f\<in>set fs. snd f \<noteq> None \<and> t @ fst f \<notin> unwritable (disk ?r1)"
    using Cons.prems by simp
  from Cons.hyps[OF this] obtain r' where r':
    "copyFunctionFiles t fs ?r1 = (None, r')"
    "installedFiles r' = installedFiles ?r1 @ map (\<lambda>f. t @ fst f) fs"
    "distinct (map fst fs) \<longrightarrow> (\<forall>f\<in>set fs. fileContent (disk r') (t @ fst f) = snd f)"
    "\<forall>p. p \<notin> (\<lambda>f. t @ fst f) ` set fs \<longrightarrow> fileContent (disk r') p = fileContent (disk ?r1) p"
    by blast
  have 1: "copyFunctionFiles t (f # fs) r = (None, r')" using f w r'(1) by simp
  have 2: "installedFiles r' = installedFiles r @ map (\<lambda>f. t @ fst f) (f # fs)"
    using r'(2) f by simp
  have 3: "\<forall>g\<in>set (f # fs). fileContent (disk r') (t @ fst g) = snd g"
    if d: "distinct (map fst (f # fs))"
  proof
    fix g assume g: "g \<in> set (f # fs)"
    show "fileContent (disk r') (t @ fst g) = snd g"
    proof (cases "g \<in> set fs")
      case True
      then show ?thesis using r'(3) d by simp
    next
      case False
      then have gf: "g = f" using g by simp
      have "rel \<notin> fst ` set fs" using d f by simp
      then have "t @ rel \<notin> (\<lambda>f. t @ fst f) ` set fs" by auto
      then have "fileContent (disk r') (t @ rel) = fileContent w (t @ rel)" using r'(4) by simp
      then show ?thesis using c(1) gf f by simp
    qed
  qed
  have 4: "\<forall>p. p \<notin> (\<lambda>f. t @ fst f) ` set (f # fs) \<longrightarrow> fileContent (disk r') p = fileContent (disk r) p"
    using r'(4) c(1) f by auto
  show ?case using 1 2 3 4 by blast
qed

lemma installFunction_skip:
  assumes "isSkip (find (\<lambda>c. path c = getFunctionsPath @ applyPrefix config [fst fn]) res)"
  shows "installFunction config res fn r =
     r\<lparr>skippedFiles := skippedFiles r @ [getFunctionsPath @ applyPrefix config [fst fn]]\<rparr>"
  using assms unfolding installFunction_def by (simp add: Let_def)

lemma installFunction_existing:
  assumes "\<not> isSkip (find (\<lambda>c. path c = getFunctionsPath @ applyPrefix config [fst fn]) res)"
    and "getFunctionsPath @ applyPrefix config [fst fn] \<in> directories (disk r)"
    and "\<not> isOverwrite (find (\<lambda>c. path c = getFunctionsPath @ applyPrefix config [fst fn]) res)"
  shows "installFunction config res fn r =
     r\<lparr>skippedFiles := skippedFiles r @ [getFunctionsPath @ applyPrefix config [fst fn]]\<rparr>"
  using assms unfolding installFunction_def by (simp add: Let_def directoryExists_def)

lemma installFunction_copy:
  assumes "\<not> isSkip (find (\<lambda>c. path c = getFunctionsPath @ applyPrefix config [fst fn]) res)"
    and "getFunctionsPath @ applyPrefix config [fst fn] \<notin> directories (disk r) \<or>
         isOverwrite (find (\<lambda>c. path c = getFunctionsPath @ applyPrefix config [fst fn]) res)"
  shows "installFunction config res fn r =
     (case (if getFunctionsPath @ applyPrefix config [fst fn] \<notin> directories (disk r) \<and>
               \<not> isOverwrite (find (\<lambda>c. path c = getFunctionsPath @ applyPrefix config [fst fn]) res)
            then createFunction (render (applyPrefix config [fst fn])) (disk r)
            else (Inr (render (applyPrefix config [fst fn])), disk r)) of
        (Inl e, w1) \<Rightarrow> r\<lparr>disk := w1, errors := errors r @ [functionError (fst fn) e]\<rparr>
      | (Inr created, w1) \<Rightarrow>
          (case copyFunctionFiles (getFunctionsPath @ applyPrefix config [fst fn]) (snd fn) (r\<lparr>disk := w1\<rparr>) of
             (Some e, r') \<Rightarrow> r'\<lparr>errors := errors r' @ [functionError (fst fn) e]\<rparr>
           | (None, r') \<Rightarrow> r'))"
  using assms unfolding installFunction_def
  by (auto simp: Let_def directoryExists_def split: prod.splits sum.splits option.splits)

lemma installFunction_within:
  "stageWithin getFunctionsPath r (installFunction config res fn r)"
proof -
  let ?t = "getFunctionsPath @ applyPrefix config [fst fn]"
  have pt: "prefix getFunctionsPath ?t" by simp
  have skipped: "stageWithin getFunctionsPath r (r\<lparr>skippedFiles := skippedFiles r @ [?t]\<rparr>)"
    unfolding stageWithin_def using pt by (simp add: sameEnvironment_refl)
  show ?thesis
  proof (cases "isSkip (find (\<lambda>c. path c = ?t) res)")
    case True
    show ?thesis unfolding installFunction_skip[OF True] by (rule skipped)
  next
    case ns: False
    show ?thesis
    proof (cases "?t \<in> directories (disk r) \<and> \<not> isOverwrite (find (\<lambda>c. path c = ?t) res)")
      case True
      then show ?thesis using installFunction_existing[OF ns] skipped by simp
    next
      case False
      then have c: "?t \<notin> directories (disk r) \<or> isOverwrite (find (\<lambda>c. path c = ?t) res)" by blast
      let ?created = "if ?t \<notin> directories (disk r) \<and> \<not> isOverwrite (find (\<lambda>c. path c = ?t) res)
            then createFunction (render (applyPrefix config [fst fn])) (disk r)
            else (Inr (render (applyPrefix config [fst fn])), disk r)"
      obtain res1 w1 where cr: "?created = (res1, w1)" by (cases ?created)
      have env1: "sameEnvironment (disk r) w1"
        and fr1: "\<And>p. \<not> prefix getFunctionsPath p \<Longrightarrow> fileContent w1 p = fileContent (disk r) p"
        using cr createFunction_effect(1,2)[of "render (applyPrefix config [fst fn])" "disk r" res1 w1]
        by (auto simp: sameEnvironment_refl split: if_splits)
      have 1: "stageWithin getFunctionsPath r (r\<lparr>disk := w1\<rparr>)"
        unfolding stageWithin_def using env1 fr1 by simp
      show ?thesis
      proof (cases res1)
        case (Inl e)
        have "installFunction config res fn r = r\<lparr>disk := w1, errors := errors r @ [functionError (fst fn) e]\<rparr>"
          unfolding installFunction_copy[OF ns c] cr using Inl by simp
        moreover have "stageWithin getFunctionsPath r (r\<lparr>disk := w1, errors := errors r @ [functionError (fst fn) e]\<rparr>)"
          unfolding stageWithin_def using env1 fr1 by simp
        ultimately show ?thesis by simp
      next
        case (Inr created)
        obtain e2 r2 where cp: "copyFunctionFiles ?t (snd fn) (r\<lparr>disk := w1\<rparr>) = (e2, r2)"
          by (cases "copyFunctionFiles ?t (snd fn) (r\<lparr>disk := w1\<rparr>)")
        note cw = copyFunctionFiles_within[OF cp pt]
        have 2: "stageWithin getFunctionsPath r r2" using stageWithin_trans[OF 1] cw by blast
        have 3: "stageWithin getFunctionsPath r2 (r2\<lparr>errors := errors r2 @ [x]\<rparr>)" for x
          unfolding stageWithin_def by (simp add: sameEnvironment_refl)
        have "installFunction config res fn r =
            (case e2 of None \<Rightarrow> r2 | Some e \<Rightarrow> r2\<lparr>errors := errors r2 @ [functionError (fst fn) e]\<rparr>)"
          unfolding installFunction_copy[OF ns c] cr using Inr cp by (simp split: option.splits)
        then show ?thesis using 2 stageWithin_trans[OF 2 3] by (cases e2) simp_all
      qed
    qed
  qed
qed

lemma installFunctions_within:
  "stageWithin getFunctionsPath r (installFunctions config res tpl r)"
proof -
  have "stageWithin getFunctionsPath r (foldl (\<lambda>r fn. installFunction config res fn r) r fs)" for fs
  proof (induct fs arbitrary: r)
    case Nil
    then show ?case by (simp add: stageWithin_refl)
  next
    case (Cons f fs)
    show ?case
      using stageWithin_trans[OF installFunction_within[of r config res f]
          Cons.hyps[of "installFunction config res f r"]] by simp
  qed
  then show ?thesis unfolding installFunctions_def
    by (cases "functionDirs tpl") (simp_all add: stageWithin_refl)
qed

lemma installFunction_copies:
  assumes ns: "\<not> isSkip (find (\<lambda>c. path c = getFunctionsPath @ applyPrefix config [fst fn]) res)"
    and c: "getFunctionsPath @ applyPrefix config [fst fn] \<notin> directories (disk r) \<or>
         isOverwrite (find (\<lambda>c. path c = getFunctionsPath @ applyPrefix config [fst fn]) res)"
    and cli: "render (applyPrefix config [fst fn]) \<notin> cliBroken (disk r)"
    and ok: "\<forall>f\<in>set (snd fn). snd f \<noteq> None \<and>
         getFunctionsPath @ applyPrefix config [fst fn] @ fst f \<notin> unwritable (disk r)"
  shows "cliCalls (disk (installFunction config res fn r)) =
       cliCalls (disk r) @
       (if isOverwrite (find (\<lambda>c. path c = getFunctionsPath @ applyPrefix config [fst fn]) res) then []
        else [FunctionsNew (render (applyPrefix config [fst fn]))]) \<and>
     installedFiles (installFunction config res fn r) =
       installedFiles r @ map (\<lambda>f. getFunctionsPath @ applyPrefix config [fst fn] @ fst f) (snd fn) \<and>
     skippedFiles (installFunction config res fn r) = skippedFiles r \<and>
     errors (installFunction config res fn r) = errors r \<and>
     (distinct (map fst (snd fn)) \<longrightarrow>
        (\<forall>f\<in>set (snd fn). fileContent (disk (installFunction config res fn r))
            (getFunctionsPath @ applyPrefix config [fst fn] @ fst f) = snd f))"
proof -
  let ?t = "getFunctionsPath @ applyPrefix config [fst fn]"
  let ?n = "render (applyPrefix config [fst fn])"
  let ?ow = "isOverwrite (find (\<lambda>c. path c = ?t) res)"
  let ?created = "if ?t \<notin> directories (disk r) \<and> \<not> ?ow
            then createFunction ?n (disk r) else (Inr ?n, disk r)"
  obtain res1 w1 where cr: "?created = (res1, w1)" by (cases ?created)
  have r1: "res1 = Inr ?n"
    using cr cli createFunction_effect(4)[of ?n "disk r" res1 w1] by (auto split: if_splits)
  have env1: "sameEnvironment (disk r) w1"
    using cr createFunction_effect(1)[of ?n "disk r" res1 w1]
    by (auto simp: sameEnvironment_refl split: if_splits)
  have calls1: "cliCalls w1 = cliCalls (disk r) @ (if ?ow then [] else [FunctionsNew ?n])"
    using cr c createFunction_effect(3)[of ?n "disk r" res1 w1] by (auto split: if_splits)
  have ok1: "\<forall>f\<in>set (snd fn). snd f \<noteq> None \<and> ?t @ fst f \<notin> unwritable (disk (r\<lparr>disk := w1\<rparr>))"
    using ok env1 by (simp add: sameEnvironment_def)
  from copyFunctionFiles_all[OF ok1] obtain r2 where r2:
    "copyFunctionFiles ?t (snd fn) (r\<lparr>disk := w1\<rparr>) = (None, r2)"
    "installedFiles r2 = installedFiles (r\<lparr>disk := w1\<rparr>) @ map (\<lambda>f. ?t @ fst f) (snd fn)"
    "distinct (map fst (snd fn)) \<longrightarrow> (\<forall>f\<in>set (snd fn). fileContent (disk r2) (?t @ fst f) = snd f)"
    by blast
  have pt: "prefix getFunctionsPath ?t" by simp
  note cw = copyFunctionFiles_within[OF r2(1) pt]
  have eq: "installFunction config res fn r = r2"
    unfolding installFunction_copy[OF ns c] cr using r1 r2(1) by simp
  show ?thesis unfolding eq using r2(2,3) cw calls1 by simp
qed

lemma collectSeeds_append:
  "collectSeeds fs (s, e) = (s @ fst (collectSeeds fs ([], [])), e @ snd (collectSeeds fs ([], [])))"
proof (induct fs arbitrary: s e)
  case Nil
  then show ?case by simp
next
  case (Cons f fs)
  obtain seedFile content where f: "f = (seedFile, content)" by (cases f)
  show ?case
  proof (cases content)
    case None
    show ?thesis
      unfolding f None
      using Cons.hyps[of s "e @ [seedReadError seedFile (''Failed to read file: '' @ readError)]"]
        Cons.hyps[of "[]" "[seedReadError seedFile (''Failed to read file: '' @ readError)]"]
      by simp
  next
    case (Some sql)
    let ?piece = "fromLine seedFile @ newline @ sql @ (if \<not> endsWith sql newline then newline else []) @ newline"
    show ?thesis
      unfolding f Some
      using Cons.hyps[of "s @ ?piece" e] Cons.hyps[of "?piece" "[]"]
      by simp
  qed
qed


lemma installSeeds_result:
  assumes "installSeeds sp f tpl r = (e, r')"
  shows "r' = r \<or>
    (e = None \<and> disk r' = disk r \<and> installedFiles r' = installedFiles r \<and>
       skippedFiles r' = skippedFiles r \<and> (\<exists>more. errors r' = errors r @ more)) \<or>
    (e = None \<and> seed tpl \<noteq> None \<and> \<not> includesText (seedText (disk r) sp) (beginMarker f) \<and>
       fileContent (disk r') = (fileContent (disk r))(sp \<mapsto> seedText (disk r) sp @ seedBlock f tpl) \<and>
       installedFiles r' = installedFiles r @ [sp] \<and> skippedFiles r' = skippedFiles r \<and>
       (\<exists>more. errors r' = errors r @ more) \<and> sameEnvironment (disk r) (disk r'))"
proof (cases "seed tpl")
  case None
  then show ?thesis using assms unfolding installSeeds_def by simp
next
  case (Some allFiles)
  let ?seedFiles = "filter isSql allFiles"
  show ?thesis
  proof (cases "?seedFiles = []")
    case True
    then show ?thesis using assms Some unfolding installSeeds_def by (simp add: Let_def)
  next
    case ne: False
    let ?read = "if fileExists (disk r) sp then readFile (disk r) sp else Inr []"
    show ?thesis
    proof (cases ?read)
      case (Inl msg)
      then show ?thesis using assms Some ne unfolding installSeeds_def by (simp add: Let_def)
    next
      case (Inr existing)
      have ex: "existing = seedText (disk r) sp"
        using Inr unfolding seedText_def fileExists_def readFile_def
        by (auto split: if_splits option.splits)
      show ?thesis
      proof (cases "includesText existing (beginMarker f)")
        case True
        then show ?thesis using assms Some ne Inr unfolding installSeeds_def by (simp add: Let_def)
      next
        case ni: False
        let ?start = "newline @ beginMarker f @ newline"
        obtain collected errs where cs: "collectSeeds ?seedFiles (?start, errors r) = (collected, errs)"
          by (cases "collectSeeds ?seedFiles (?start, errors r)")
        have col: "collected = fst (collectSeeds ?seedFiles (?start, []))"
          and er: "errs = errors r @ snd (collectSeeds ?seedFiles ([], []))"
          using cs collectSeeds_append[of ?seedFiles ?start "errors r"]
            collectSeeds_append[of ?seedFiles ?start "[]"] by simp_all
        have blk: "collected @ endMarker f @ newline = seedBlock f tpl"
          unfolding seedBlock_def Some using col by simp
        show ?thesis
        proof (cases "writeFile sp (existing @ collected @ endMarker f @ newline) (disk r)")
          case (Inl msg)
          then have "e = None" "r' = r\<lparr>errors := errs @ [seedWriteError msg]\<rparr>"
            using assms Some ne Inr ni cs unfolding installSeeds_def by (simp_all add: Let_def)
          then show ?thesis using er by simp
        next
          case w: (Inr w)
          then have 1: "e = None"
            "r' = r\<lparr>disk := w, errors := errs, installedFiles := installedFiles r @ [sp]\<rparr>"
            using assms Some ne Inr ni cs unfolding installSeeds_def by (simp_all add: Let_def)
          note we = writeFile_effect[OF w]
          have "fileContent (disk r') = (fileContent (disk r))(sp \<mapsto> seedText (disk r) sp @ seedBlock f tpl)"
            using 1(2) we(1) blk ex by simp
          then show ?thesis using 1 er we(2) ni ex Some by simp
        qed
      qed
    qed
  qed
qed

lemma installSeeds_noop:
  assumes "includesText (seedText (disk r) sp) (beginMarker f)"
  shows "snd (installSeeds sp f tpl r) = r"
proof -
  obtain e r' where res: "installSeeds sp f tpl r = (e, r')" by (cases "installSeeds sp f tpl r")
  from installSeeds_result[OF res] assms
  have "r' = r \<or> (disk r' = disk r \<and> installedFiles r' = installedFiles r \<and>
       skippedFiles r' = skippedFiles r \<and> (\<exists>more. errors r' = errors r @ more))"
    by blast
  moreover have "r' = r" if "r' \<noteq> r"
  proof (cases "seed tpl")
    case None
    then show ?thesis using res unfolding installSeeds_def by simp
  next
    case (Some allFiles)
    show ?thesis
    proof (cases "filter isSql allFiles = []")
      case True
      then show ?thesis using res Some unfolding installSeeds_def by (simp add: Let_def)
    next
      case ne: False
      show ?thesis
      proof (cases "if fileExists (disk r) sp then readFile (disk r) sp else Inr []")
        case (Inl msg)
        then show ?thesis using res Some ne unfolding installSeeds_def by (simp add: Let_def)
      next
        case (Inr existing)
        have "existing = seedText (disk r) sp"
          using Inr unfolding seedText_def fileExists_def readFile_def
          by (auto split: if_splits option.splits)
        then have "includesText existing (beginMarker f)" using assms by simp
        then show ?thesis using res Some ne Inr unfolding installSeeds_def by (simp add: Let_def)
      qed
    qed
  qed
  ultimately show ?thesis using res by auto
qed

lemma installSeeds_within:
  assumes "installSeeds sp f tpl r = (e, r')"
  shows "stageWithin sp r r'"
proof -
  from installSeeds_result[OF assms]
  consider "r' = r"
    | "disk r' = disk r" "installedFiles r' = installedFiles r" "skippedFiles r' = skippedFiles r"
      "\<exists>more. errors r' = errors r @ more"
    | "fileContent (disk r') = (fileContent (disk r))(sp \<mapsto> seedText (disk r) sp @ seedBlock f tpl)"
      "installedFiles r' = installedFiles r @ [sp]" "skippedFiles r' = skippedFiles r"
      "\<exists>more. errors r' = errors r @ more" "sameEnvironment (disk r) (disk r')"
    by blast
  then show ?thesis
  proof cases
    case 1
    then show ?thesis by (simp add: stageWithin_refl)
  next
    case 2
    then show ?thesis unfolding stageWithin_def by (simp add: sameEnvironment_refl)
  next
    case 3
    have "\<forall>p. \<not> prefix sp p \<longrightarrow> fileContent (disk r') p = fileContent (disk r) p"
      using 3(1) by auto
    then show ?thesis unfolding stageWithin_def using 3 by simp
  qed
qed

lemma updateInstalledFeatures_result:
  assumes "updateInstalledFeatures fs now f config r = (e, config', r')"
  shows "installedFiles r' = installedFiles r \<and> skippedFiles r' = skippedFiles r \<and>
     errors r' = errors r \<and> fileContent (disk r') = fileContent (disk r) \<and>
     (getProperty fs f = Absent \<longrightarrow> config' = config \<and> r' = r \<and> e = None) \<and>
     (getProperty fs f \<noteq> Absent \<longrightarrow>
        config' = config\<lparr>installedFeatures := (installedFeatures config)(f \<mapsto>
          \<lparr>installed_version = version_of (getProperty fs f), installedAt = now,
           files = installedFiles r\<rparr>)\<rparr> \<and>
        (e = None \<longrightarrow> configFile (disk r') = Some config') \<and>
        (e \<noteq> None \<longrightarrow> r' = r)) \<and>
     (\<forall>feature. map_of fs f = Some feature \<longrightarrow>
        config' = config\<lparr>installedFeatures := (installedFeatures config)(f \<mapsto>
          \<lparr>installed_version = version feature, installedAt = now, files = installedFiles r\<rparr>)\<rparr> \<and>
        (e = None \<longrightarrow> configFile (disk r') = Some config') \<and>
        (e \<noteq> None \<longrightarrow> r' = r))"
proof -
  have A: "installedFiles r' = installedFiles r \<and> skippedFiles r' = skippedFiles r \<and>
     errors r' = errors r \<and> fileContent (disk r') = fileContent (disk r) \<and>
     (getProperty fs f = Absent \<longrightarrow> config' = config \<and> r' = r \<and> e = None) \<and>
     (getProperty fs f \<noteq> Absent \<longrightarrow>
        config' = config\<lparr>installedFeatures := (installedFeatures config)(f \<mapsto>
          \<lparr>installed_version = version_of (getProperty fs f), installedAt = now,
           files = installedFiles r\<rparr>)\<rparr> \<and>
        (e = None \<longrightarrow> configFile (disk r') = Some config') \<and>
        (e \<noteq> None \<longrightarrow> r' = r))"
    using assms unfolding updateInstalledFeatures_def saveConfig_def
    by (auto simp: Let_def split: if_splits)
  have B: "getProperty fs f \<noteq> Absent \<and> version_of (getProperty fs f) = version feature"
    if "map_of fs f = Some feature" for feature
    using that by (simp add: getProperty_def version_of_def)
  show ?thesis using A B by metis
qed

lemma installFeature_cases:
  assumes "installFeature fs tpl sp now f res (config, w) = Inr (out, config', w')"
  obtains (schemaFailed) e r1 where
      "installSchemas config res tpl (initialRun w) = (Some e, r1)"
      "out = failure e r1" "config' = config" "w' = disk r1"
  | (seedFailed) r1 e r4 where
      "installSchemas config res tpl (initialRun w) = (None, r1)"
      "installSeeds sp f tpl (installFunctions config res tpl (installMigrations config tpl r1)) = (Some e, r4)"
      "out = failure e r4" "config' = config" "w' = disk r4"
  | (persistFailed) r1 r4 e r5 where
      "installSchemas config res tpl (initialRun w) = (None, r1)"
      "installSeeds sp f tpl (installFunctions config res tpl (installMigrations config tpl r1)) = (None, r4)"
      "updateInstalledFeatures fs now f config r4 = (Some e, config', r5)"
      "out = failure e r5" "w' = disk r5"
  | (completed) r1 r4 r5 where
      "installSchemas config res tpl (initialRun w) = (None, r1)"
      "installSeeds sp f tpl (installFunctions config res tpl (installMigrations config tpl r1)) = (None, r4)"
      "updateInstalledFeatures fs now f config r4 = (None, config', r5)"
      "out = \<lparr>installedFiles = installedFiles r5, skippedFiles = skippedFiles r5,
              errors = errors r5, success = (errors r5 = [])\<rparr>" "w' = disk r5"
proof -
  from assms have known: "getProperty fs f \<noteq> Absent"
    unfolding installFeature_def by (auto simp: Let_def split: if_splits)
  obtain e1 r1 where s1: "installSchemas config res tpl (initialRun w) = (e1, r1)"
    by (cases "installSchemas config res tpl (initialRun w)")
  show ?thesis
  proof (cases e1)
    case (Some e)
    have "out = failure e r1 \<and> config' = config \<and> w' = disk r1"
      using assms known s1 Some unfolding installFeature_def by (simp add: Let_def)
    then show ?thesis using schemaFailed s1 Some by blast
  next
    case n1: None
    let ?r3 = "installFunctions config res tpl (installMigrations config tpl r1)"
    obtain e4 r4 where s4: "installSeeds sp f tpl ?r3 = (e4, r4)"
      by (cases "installSeeds sp f tpl ?r3")
    show ?thesis
    proof (cases e4)
      case (Some e)
      have "out = failure e r4 \<and> config' = config \<and> w' = disk r4"
        using assms known s1 n1 s4 Some unfolding installFeature_def by (simp add: Let_def)
      then show ?thesis using seedFailed s1 n1 s4 Some by blast
    next
      case n4: None
      obtain e5 c5 r5 where s5: "updateInstalledFeatures fs now f config r4 = (e5, c5, r5)"
        by (cases "updateInstalledFeatures fs now f config r4") auto
      show ?thesis
      proof (cases e5)
        case (Some e)
        have "out = failure e r5 \<and> config' = c5 \<and> w' = disk r5"
          using assms known s1 n1 s4 n4 s5 Some unfolding installFeature_def
          by (simp add: Let_def)
        then show ?thesis using persistFailed s1 n1 s4 n4 s5 Some by blast
      next
        case None
        have "out = \<lparr>installedFiles = installedFiles r5, skippedFiles = skippedFiles r5,
              errors = errors r5, success = (errors r5 = [])\<rparr> \<and> config' = c5 \<and> w' = disk r5"
          using assms known s1 n1 s4 n4 s5 None unfolding installFeature_def
          by (simp add: Let_def)
        then show ?thesis using completed s1 n1 s4 n4 s5 None by blast
      qed
    qed
  qed
qed

subsection \<open>Claims about the installer\<close>

text \<open>
  C2. The claim says that a failing copy of one schema file is recorded and that the other
  schema files and all later stages are still attempted. The schema stage has no
  \<^verbatim>\<open>try\<close> block of its own, unlike the three stages after it: with two schema files and
  one migration, when the copy of the first schema file fails, the installation ends there.
  The message is the only entry of \<^verbatim>\<open>errors\<close>; the second schema file is not copied, no
  scaffold command is run and no record is stored (the project is unchanged).
\<close>

theorem installFeature_schema_failure_aborts:
  "installFeature (features_of chainRegistry) twoSchemas seedSql ''2024-09-07'' ''a'' []
     (plainConfig, readOnlySchemaWorld) =
   Inr (\<lparr>installedFiles = [], skippedFiles = [],
          errors = [copyError (writeError [''supabase'', ''schemas'', ''a.sql''])], success = False\<rparr>,
        plainConfig, readOnlySchemaWorld)"
  by (simp add: installer_defs features_of_def chainRegistry_def twoSchemas_def plainConfig_def
      readOnlySchemaWorld_def emptyWorld_def Let_def)

text \<open>
  C4, as stated, fails where the target directory does not exist and the resolution is
  \<^verbatim>\<open>overwrite\<close>: the scaffold tool is not called, and the files are copied.
\<close>

theorem installFunction_overwrite_absent_counterexample:
  "[''supabase'', ''functions'', ''foo''] \<notin> directories emptyWorld \<and>
   cliCalls (disk (installFunction plainConfig
      [\<lparr>path = [''supabase'', ''functions'', ''foo''], exists = False, action = Some Overwrite\<rparr>]
      fooFunction (initialRun emptyWorld))) = [] \<and>
   installedFiles (installFunction plainConfig
      [\<lparr>path = [''supabase'', ''functions'', ''foo''], exists = False, action = Some Overwrite\<rparr>]
      fooFunction (initialRun emptyWorld)) = [[''supabase'', ''functions'', ''foo'', ''index.ts'']]"
  by (simp add: installer_defs fooFunction_def plainConfig_def emptyWorld_def Let_def)

text \<open>
  C4, amended. For one function directory of the function stage, with target directory
  \<open>t\<close>: if the resolution is \<^verbatim>\<open>skip\<close>, \<open>t\<close> is added to \<^verbatim>\<open>skippedFiles\<close> and nothing else
  changes; if \<open>t\<close> exists and the resolution is not \<^verbatim>\<open>overwrite\<close>, the same, without an
  error; if the resolution is \<^verbatim>\<open>overwrite\<close> (whether or not \<open>t\<close> exists) the files are
  copied and the scaffold tool is not called; if \<open>t\<close> does not exist and there is no
  resolution, the scaffold tool is called exactly once and then the files are copied.
  Copying means, when the tool and every copy succeed: every template file is in \<open>t\<close> with
  its content and its path is added to \<^verbatim>\<open>installedFiles\<close>.
\<close>

theorem installFunction_decision_table:
  "(isSkip (find (\<lambda>c. path c = getFunctionsPath @ applyPrefix config [fst fn]) res) \<longrightarrow>
      installFunction config res fn r =
        r\<lparr>skippedFiles := skippedFiles r @ [getFunctionsPath @ applyPrefix config [fst fn]]\<rparr>) \<and>
   (\<not> isSkip (find (\<lambda>c. path c = getFunctionsPath @ applyPrefix config [fst fn]) res) \<and>
    \<not> isOverwrite (find (\<lambda>c. path c = getFunctionsPath @ applyPrefix config [fst fn]) res) \<and>
    getFunctionsPath @ applyPrefix config [fst fn] \<in> directories (disk r) \<longrightarrow>
      installFunction config res fn r =
        r\<lparr>skippedFiles := skippedFiles r @ [getFunctionsPath @ applyPrefix config [fst fn]]\<rparr>) \<and>
   ((isOverwrite (find (\<lambda>c. path c = getFunctionsPath @ applyPrefix config [fst fn]) res) \<or>
     \<not> isSkip (find (\<lambda>c. path c = getFunctionsPath @ applyPrefix config [fst fn]) res) \<and>
     getFunctionsPath @ applyPrefix config [fst fn] \<notin> directories (disk r)) \<and>
    render (applyPrefix config [fst fn]) \<notin> cliBroken (disk r) \<and>
    (\<forall>f\<in>set (snd fn). snd f \<noteq> None \<and>
       getFunctionsPath @ applyPrefix config [fst fn] @ fst f \<notin> unwritable (disk r)) \<longrightarrow>
      cliCalls (disk (installFunction config res fn r)) =
        cliCalls (disk r) @
        (if isOverwrite (find (\<lambda>c. path c = getFunctionsPath @ applyPrefix config [fst fn]) res) then []
         else [FunctionsNew (render (applyPrefix config [fst fn]))]) \<and>
      installedFiles (installFunction config res fn r) =
        installedFiles r @ map (\<lambda>f. getFunctionsPath @ applyPrefix config [fst fn] @ fst f) (snd fn) \<and>
      skippedFiles (installFunction config res fn r) = skippedFiles r \<and>
      errors (installFunction config res fn r) = errors r \<and>
      (distinct (map fst (snd fn)) \<longrightarrow>
         (\<forall>f\<in>set (snd fn). fileContent (disk (installFunction config res fn r))
             (getFunctionsPath @ applyPrefix config [fst fn] @ fst f) = snd f)))"
proof -
  let ?c = "find (\<lambda>c. path c = getFunctionsPath @ applyPrefix config [fst fn]) res"
  let ?t = "getFunctionsPath @ applyPrefix config [fst fn]"
  have A: "isSkip ?c \<longrightarrow> installFunction config res fn r = r\<lparr>skippedFiles := skippedFiles r @ [?t]\<rparr>"
    using installFunction_skip by blast
  have B: "\<not> isSkip ?c \<and> \<not> isOverwrite ?c \<and> ?t \<in> directories (disk r) \<longrightarrow>
      installFunction config res fn r = r\<lparr>skippedFiles := skippedFiles r @ [?t]\<rparr>"
    using installFunction_existing by blast
  have C: "(isOverwrite ?c \<or> \<not> isSkip ?c \<and> ?t \<notin> directories (disk r)) \<and>
    render (applyPrefix config [fst fn]) \<notin> cliBroken (disk r) \<and>
    (\<forall>f\<in>set (snd fn). snd f \<noteq> None \<and> ?t @ fst f \<notin> unwritable (disk r)) \<longrightarrow>
      cliCalls (disk (installFunction config res fn r)) =
        cliCalls (disk r) @
        (if isOverwrite ?c then [] else [FunctionsNew (render (applyPrefix config [fst fn]))]) \<and>
      installedFiles (installFunction config res fn r) =
        installedFiles r @ map (\<lambda>f. ?t @ fst f) (snd fn) \<and>
      skippedFiles (installFunction config res fn r) = skippedFiles r \<and>
      errors (installFunction config res fn r) = errors r \<and>
      (distinct (map fst (snd fn)) \<longrightarrow>
         (\<forall>f\<in>set (snd fn). fileContent (disk (installFunction config res fn r)) (?t @ fst f) = snd f))"
  proof
    assume a: "(isOverwrite ?c \<or> \<not> isSkip ?c \<and> ?t \<notin> directories (disk r)) \<and>
      render (applyPrefix config [fst fn]) \<notin> cliBroken (disk r) \<and>
      (\<forall>f\<in>set (snd fn). snd f \<noteq> None \<and> ?t @ fst f \<notin> unwritable (disk r))"
    have "isOverwrite ?c \<Longrightarrow> \<not> isSkip ?c"
      unfolding isOverwrite_def isSkip_def by (auto split: option.splits)
    then have ns: "\<not> isSkip ?c" using a by blast
    have c: "?t \<notin> directories (disk r) \<or> isOverwrite ?c" using a by blast
    have cli: "render (applyPrefix config [fst fn]) \<notin> cliBroken (disk r)" using a by blast
    have ok: "\<forall>f\<in>set (snd fn). snd f \<noteq> None \<and>
       getFunctionsPath @ applyPrefix config [fst fn] @ fst f \<notin> unwritable (disk r)" using a by simp
    show "cliCalls (disk (installFunction config res fn r)) =
        cliCalls (disk r) @
        (if isOverwrite ?c then [] else [FunctionsNew (render (applyPrefix config [fst fn]))]) \<and>
      installedFiles (installFunction config res fn r) =
        installedFiles r @ map (\<lambda>f. ?t @ fst f) (snd fn) \<and>
      skippedFiles (installFunction config res fn r) = skippedFiles r \<and>
      errors (installFunction config res fn r) = errors r \<and>
      (distinct (map fst (snd fn)) \<longrightarrow>
         (\<forall>f\<in>set (snd fn). fileContent (disk (installFunction config res fn r)) (?t @ fst f) = snd f))"
      using installFunction_copies[OF ns c cli ok] by simp
  qed
  show ?thesis using A B C by simp
qed

theorem installFunction_decision_table_witness:
  "cliCalls (disk (installFunction plainConfig [] fooFunction (initialRun emptyWorld))) = [FunctionsNew ''foo''] \<and>
   installedFiles (installFunction plainConfig [] fooFunction (initialRun emptyWorld)) =
     [[''supabase'', ''functions'', ''foo'', ''index.ts'']] \<and>
   fileContent (disk (installFunction plainConfig [] fooFunction (initialRun emptyWorld)))
     [''supabase'', ''functions'', ''foo'', ''index.ts''] = Some ''serve()''"
  using installFunction_decision_table[of plainConfig fooFunction "[]" "initialRun emptyWorld"]
  by (simp add: getFunctionsPath_def applyPrefix_def applyFilePrefix_def plainConfig_def fooFunction_def
      isSkip_def isOverwrite_def initialRun_def emptyWorld_def)

text \<open>
  C6. The claim says that a conflict entry without a resolution is treated as
  \<^verbatim>\<open>skip\<close>. The function stage does so for a directory that exists; the schema stage
  skips only on an explicit \<^verbatim>\<open>skip\<close>: a schema file whose target exists and whose entry
  has no resolution is overwritten and reported as installed.
\<close>

theorem installFeature_unresolved_schema_overwritten:
  "(case installFeature (features_of chainRegistry) oneSchema seedSql ''2024-09-07'' ''a''
       [\<lparr>path = [''supabase'', ''schemas'', ''placeholder.sql''], exists = True, action = None\<rparr>]
       (plainConfig, conflictingWorld) of
      Inl e \<Rightarrow> False
    | Inr (out, config', w') \<Rightarrow>
        installedFiles out = [[''supabase'', ''schemas'', ''placeholder.sql'']] \<and>
        skippedFiles out = [] \<and> success out \<and>
        fileContent conflictingWorld [''supabase'', ''schemas'', ''placeholder.sql''] = Some ''create schema mine;'' \<and>
        fileContent w' [''supabase'', ''schemas'', ''placeholder.sql''] = Some ''create schema theirs;'')"
  by (simp add: installer_defs features_of_def chainRegistry_def oneSchema_def plainConfig_def
      conflictingWorld_def emptyWorld_def Let_def)

lemma stageWithin_prefix:
  assumes "stageWithin d r r'"
  shows "prefix (installedFiles r) (installedFiles r')" and "prefix (skippedFiles r) (skippedFiles r')"
    and "prefix (errors r) (errors r')"
  using assms unfolding stageWithin_def by (auto simp: prefix_def)

lemma later_stages_prefix:
  assumes "installSeeds sp f tpl (installFunctions config res tpl (installMigrations config tpl r1)) = (e, r4)"
  shows "prefix (installedFiles r1) (installedFiles (installFunctions config res tpl (installMigrations config tpl r1)))"
    and "prefix (skippedFiles r1) (skippedFiles (installFunctions config res tpl (installMigrations config tpl r1)))"
    and "prefix (installedFiles (installFunctions config res tpl (installMigrations config tpl r1))) (installedFiles r4)"
    and "prefix (skippedFiles (installFunctions config res tpl (installMigrations config tpl r1))) (skippedFiles r4)"
proof -
  let ?r2 = "installMigrations config tpl r1"
  let ?r3 = "installFunctions config res tpl ?r2"
  have m: "stageWithin getMigrationsPath r1 ?r2" using installMigrations_within by blast
  have f: "stageWithin getFunctionsPath ?r2 ?r3" by (rule installFunctions_within)
  have s: "stageWithin sp ?r3 r4" using installSeeds_within[OF assms] .
  show "prefix (installedFiles r1) (installedFiles ?r3)"
    using stageWithin_prefix(1)[OF m] stageWithin_prefix(1)[OF f] by (rule prefix_order.trans)
  show "prefix (skippedFiles r1) (skippedFiles ?r3)"
    using stageWithin_prefix(2)[OF m] stageWithin_prefix(2)[OF f] by (rule prefix_order.trans)
  show "prefix (installedFiles ?r3) (installedFiles r4)" using stageWithin_prefix(1)[OF s] .
  show "prefix (skippedFiles ?r3) (skippedFiles r4)" using stageWithin_prefix(2)[OF s] .
qed

lemma unwritableConfig_seeds:
  "installSeeds seedSql ''a'' schemaWithSeed
     (installFunctions plainConfig [] schemaWithSeed
        (installMigrations plainConfig schemaWithSeed
           (snd (installSchemas plainConfig [] schemaWithSeed (initialRun unwritableConfigWorld))))) =
   (None, snd (installSeeds seedSql ''a'' schemaWithSeed
     (installFunctions plainConfig [] schemaWithSeed
        (installMigrations plainConfig schemaWithSeed
           (snd (installSchemas plainConfig [] schemaWithSeed (initialRun unwritableConfigWorld))))))) \<and>
   installSchemas plainConfig [] schemaWithSeed (initialRun unwritableConfigWorld) =
   (None, snd (installSchemas plainConfig [] schemaWithSeed (initialRun unwritableConfigWorld))) \<and>
   installedFiles (snd (installSeeds seedSql ''a'' schemaWithSeed
     (installFunctions plainConfig [] schemaWithSeed
        (installMigrations plainConfig schemaWithSeed
           (snd (installSchemas plainConfig [] schemaWithSeed (initialRun unwritableConfigWorld))))))) =
   [[''supabase'', ''schemas'', ''placeholder.sql''], [''supabase'', ''seed.sql'']]"
  by (simp add: installer_defs schemaWithSeed_def plainConfig_def seedSql_def beginMarker_def
      unwritableConfigWorld_def emptyWorld_def Let_def)

lemma unwritableConfig_run:
  "\<exists>config' w'. installFeature (features_of chainRegistry) schemaWithSeed seedSql ''2024-09-07'' ''a'' []
     (plainConfig, unwritableConfigWorld) =
   Inr (\<lparr>installedFiles = [[''supabase'', ''schemas'', ''placeholder.sql''], [''supabase'', ''seed.sql'']],
          skippedFiles = [], errors = [''Failed to save configuration''], success = False\<rparr>,
        config', w')"
  by (simp add: installer_defs features_of_def chainRegistry_def schemaWithSeed_def plainConfig_def
      seedSql_def beginMarker_def unwritableConfigWorld_def emptyWorld_def Let_def)


text \<open>
  C7. Whenever \<^verbatim>\<open>installFeature\<close> returns an outcome, \<^verbatim>\<open>success\<close> is true exactly when
  \<^verbatim>\<open>errors\<close> is empty (so a failed outcome has at least one error), and the outcome holds
  what was recorded before the failure. When the schema stage throws, \<^verbatim>\<open>installedFiles\<close> and
  \<^verbatim>\<open>skippedFiles\<close> are the lists at the throw and \<^verbatim>\<open>errors\<close> is the list at the throw with
  the message added. Otherwise the two lists are exactly the lists after the seed stage
  (which begin with what the schema stage and then the migration and function stages
  recorded), whether the seed stage threw, the persist stage failed or the run completed,
  and \<^verbatim>\<open>errors\<close> is the list after the seed stage, with the message of the failure added if
  there was one.
\<close>

theorem installFeature_outcome:
  assumes "installFeature fs tpl sp now f res (config, w) = Inr (out, config', w')"
  shows "(success out \<longleftrightarrow> errors out = []) \<and>
    (\<forall>e1 r1. installSchemas config res tpl (initialRun w) = (e1, r1) \<longrightarrow>
       prefix (installedFiles r1) (installedFiles out) \<and> prefix (skippedFiles r1) (skippedFiles out) \<and>
       (e1 \<noteq> None \<longrightarrow>
          installedFiles out = installedFiles r1 \<and> skippedFiles out = skippedFiles r1 \<and>
          (\<exists>e. errors out = errors r1 @ [e])) \<and>
       (e1 = None \<longrightarrow>
          prefix (installedFiles (installFunctions config res tpl (installMigrations config tpl r1)))
            (installedFiles out) \<and>
          prefix (skippedFiles (installFunctions config res tpl (installMigrations config tpl r1)))
            (skippedFiles out) \<and>
          (\<forall>e4 r4. installSeeds sp f tpl (installFunctions config res tpl (installMigrations config tpl r1)) =
                (e4, r4) \<longrightarrow>
             installedFiles out = installedFiles r4 \<and> skippedFiles out = skippedFiles r4 \<and>
             (errors out = errors r4 \<or> (\<exists>e. errors out = errors r4 @ [e])))))"
  using assms
proof (cases rule: installFeature_cases)
  case (schemaFailed e r1)
  then show ?thesis by (simp add: failure_def)
next
  case (seedFailed r1 e r4)
  note p = later_stages_prefix[OF seedFailed(2)]
  have "prefix (installedFiles r1) (installedFiles r4)" using p(1) p(3) by (rule prefix_order.trans)
  moreover have "prefix (skippedFiles r1) (skippedFiles r4)" using p(2) p(4) by (rule prefix_order.trans)
  ultimately show ?thesis using seedFailed p(3,4) by (simp add: failure_def)
next
  case (persistFailed r1 r4 e r5)
  note p = later_stages_prefix[OF persistFailed(2)]
  note u = updateInstalledFeatures_result[OF persistFailed(3)]
  have i: "prefix (installedFiles r1) (installedFiles r4)" using p(1) p(3) by (rule prefix_order.trans)
  have s: "prefix (skippedFiles r1) (skippedFiles r4)" using p(2) p(4) by (rule prefix_order.trans)
  have l: "installedFiles r5 = installedFiles r4" "skippedFiles r5 = skippedFiles r4" "errors r5 = errors r4"
    using u by blast+
  show ?thesis using persistFailed(1,2,4) p(3,4) i s l by (simp add: failure_def)
next
  case (completed r1 r4 r5)
  note p = later_stages_prefix[OF completed(2)]
  note u = updateInstalledFeatures_result[OF completed(3)]
  have i: "prefix (installedFiles r1) (installedFiles r4)" using p(1) p(3) by (rule prefix_order.trans)
  have s: "prefix (skippedFiles r1) (skippedFiles r4)" using p(2) p(4) by (rule prefix_order.trans)
  have l: "installedFiles r5 = installedFiles r4" "skippedFiles r5 = skippedFiles r4" "errors r5 = errors r4"
    using u by blast+
  show ?thesis using completed(1,2,4) p(3,4) i s l by simp
qed

theorem installFeature_outcome_witness:
  "\<exists>out config' w'.
     installFeature (features_of chainRegistry) schemaWithSeed seedSql ''2024-09-07'' ''a'' []
       (plainConfig, unwritableConfigWorld) = Inr (out, config', w') \<and>
     \<not> success out \<and> errors out = [''Failed to save configuration''] \<and>
     installedFiles out = [[''supabase'', ''schemas'', ''placeholder.sql''], [''supabase'', ''seed.sql'']] \<and>
     installedFiles out =
       installedFiles (snd (installSeeds seedSql ''a'' schemaWithSeed
         (installFunctions plainConfig [] schemaWithSeed
            (installMigrations plainConfig schemaWithSeed
               (snd (installSchemas plainConfig [] schemaWithSeed (initialRun unwritableConfigWorld)))))))"
proof -
  from unwritableConfig_run obtain config' w' where
    run: "installFeature (features_of chainRegistry) schemaWithSeed seedSql ''2024-09-07'' ''a'' []
     (plainConfig, unwritableConfigWorld) =
     Inr (\<lparr>installedFiles = [[''supabase'', ''schemas'', ''placeholder.sql''], [''supabase'', ''seed.sql'']],
          skippedFiles = [], errors = [''Failed to save configuration''], success = False\<rparr>,
        config', w')"
    by blast
  let ?out = "\<lparr>installedFiles = [[''supabase'', ''schemas'', ''placeholder.sql''], [''supabase'', ''seed.sql'']],
          skippedFiles = [], errors = [''Failed to save configuration''], success = False\<rparr>"
  let ?r1 = "snd (installSchemas plainConfig [] schemaWithSeed (initialRun unwritableConfigWorld))"
  let ?r4 = "snd (installSeeds seedSql ''a'' schemaWithSeed
     (installFunctions plainConfig [] schemaWithSeed (installMigrations plainConfig schemaWithSeed ?r1)))"
  note t = installFeature_outcome[OF run]
  have s1: "installSchemas plainConfig [] schemaWithSeed (initialRun unwritableConfigWorld) = (None, ?r1)"
    using unwritableConfig_seeds by blast
  have s4: "installSeeds seedSql ''a'' schemaWithSeed
     (installFunctions plainConfig [] schemaWithSeed (installMigrations plainConfig schemaWithSeed ?r1)) =
     (None, ?r4)"
    using unwritableConfig_seeds by blast
  have "installedFiles ?out = installedFiles ?r4"
    using t s1 s4 by blast
  then show ?thesis using run by simp
qed



subsection \<open>Where the prefix is applied\<close>

lemma extname_suffix:
  assumes "extname seg \<noteq> []"
  shows "\<exists>stem. stem \<noteq> [] \<and> seg = stem @ extname seg"
proof -
  let ?P = "\<lambda>c. c \<noteq> CHR ''.''"
  let ?tw = "takeWhile ?P (rev seg)"
  let ?dw = "dropWhile ?P (rev seg)"
  from assms have dot: "CHR ''.'' \<in> set seg" and len: "Suc (length (rev ?tw)) \<noteq> length seg"
    and ext: "extname seg = CHR ''.'' # rev ?tw"
    unfolding extname_def Let_def by (auto split: if_splits)
  have ne: "?dw \<noteq> []" using dot by (simp add: dropWhile_eq_Nil_conv) 
  then obtain rest where dw: "?dw = CHR ''.'' # rest"
    using hd_dropWhile[of ?P "rev seg"] by (cases ?dw) auto
  have "rev seg = ?tw @ CHR ''.'' # rest" using takeWhile_dropWhile_id[of ?P "rev seg"] dw by simp
  then have "rev (rev seg) = rev (?tw @ CHR ''.'' # rest)" by simp
  then have seg: "seg = rev rest @ CHR ''.'' # rev ?tw" by simp
  have "rest \<noteq> []"
  proof
    assume "rest = []"
    then have "length seg = Suc (length (rev ?tw))" using arg_cong[OF seg, of length] by simp
    then show False using len by simp
  qed
  then show ?thesis using seg ext by auto
qed

lemma basename_extname:
  assumes "p \<noteq> []"
  shows "basename p (extname (basename p [])) @ extname (basename p []) = last p"
proof -
  have b: "basename p [] = last p" using assms by (cases p) (simp_all add: basename_def)
  show ?thesis
  proof (cases "extname (last p) = []")
    case True
    then show ?thesis using b by simp
  next
    case False
    from extname_suffix[OF False] obtain stem where s: "stem \<noteq> []" "last p = stem @ extname (last p)"
      by blast
    let ?e = "extname (last p)"
    have l: "length ?e < length (last p)" using arg_cong[OF s(2), of length] s(1) by simp
    have d: "drop (length (last p) - length ?e) (last p) = ?e"
      using arg_cong[OF s(2), of "drop (length stem)"] arg_cong[OF s(2), of length] by simp
    have t: "take (length (last p) - length ?e) (last p) = stem"
      using arg_cong[OF s(2), of "take (length stem)"] arg_cong[OF s(2), of length] by simp
    have "basename p ?e = stem"
      using assms False l d t by (cases p) (simp_all add: basename_def endsWith_def Let_def)
    then show ?thesis using b s(2) by simp
  qed
qed

lemma applyFilePrefix_some:
  assumes "filePrefix config = Some pre" "pre \<noteq> []" "p \<noteq> []"
  shows "applyFilePrefix p config = butlast p @ [pre @ last p]"
  using assms basename_extname[OF assms(3)]
  by (simp add: applyFilePrefix_def Let_def join_def dirname_def)

lemma applyFilePrefix_none:
  assumes "filePrefix config = None \<or> filePrefix config = Some []"
  shows "applyFilePrefix p config = p"
  using assms by (auto simp: applyFilePrefix_def)

lemma installSchemaFiles_recorded:
  "installSchemaFiles config res fs r = (e, r') \<Longrightarrow>
   set (installedFiles r') \<subseteq> set (installedFiles r) \<union> (\<lambda>f. getTargetPath config ''schemas'' (fst f)) ` set fs \<and>
   set (skippedFiles r') \<subseteq> set (skippedFiles r) \<union> (\<lambda>f. getTargetPath config ''schemas'' (fst f)) ` set fs"
proof (induct fs arbitrary: r)
  case Nil
  then show ?case by simp
next
  case (Cons f fs)
  obtain rel content where f: "f = (rel, content)" by (cases f)
  let ?t = "getTargetPath config ''schemas'' rel"
  show ?case
  proof (cases "isSkip (find (\<lambda>c. path c = ?t) res)")
    case True
    let ?r1 = "r\<lparr>skippedFiles := skippedFiles r @ [?t]\<rparr>"
    have "installSchemaFiles config res fs ?r1 = (e, r')" using Cons.prems f True by simp
    from Cons.hyps[OF this] show ?thesis using f by auto
  next
    case False
    show ?thesis
    proof (cases "copyFile content ?t (disk r)")
      case (Inl msg)
      then have "r' = r" using Cons.prems f False by simp
      then show ?thesis by auto
    next
      case (Inr w)
      let ?r1 = "r\<lparr>disk := w, installedFiles := installedFiles r @ [?t]\<rparr>"
      have "installSchemaFiles config res fs ?r1 = (e, r')" using Cons.prems f False Inr by simp
      from Cons.hyps[OF this] show ?thesis using f by auto
    qed
  qed
qed

lemma copyFunctionFiles_recorded:
  "copyFunctionFiles t fs r = (e, r') \<Longrightarrow>
   set (installedFiles r') \<subseteq> set (installedFiles r) \<union> (\<lambda>f. t @ fst f) ` set fs"
proof (induct fs arbitrary: r)
  case Nil
  then show ?case by simp
next
  case (Cons f fs)
  obtain rel content where f: "f = (rel, content)" by (cases f)
  show ?case
  proof (cases "copyFile content (t @ rel) (disk r)")
    case (Inl msg)
    then have "r' = r" using Cons.prems f by simp
    then show ?thesis by auto
  next
    case (Inr w)
    let ?r1 = "r\<lparr>disk := w, installedFiles := installedFiles r @ [t @ rel]\<rparr>"
    have "copyFunctionFiles t fs ?r1 = (e, r')" using Cons.prems f Inr by simp
    from Cons.hyps[OF this] show ?thesis using f by auto
  qed
qed

lemma installFunction_recorded:
  "set (installedFiles (installFunction config res fn r)) \<subseteq>
     set (installedFiles r) \<union> (\<lambda>f. getFunctionsPath @ applyFilePrefix [fst fn] config @ fst f) ` set (snd fn) \<and>
   set (skippedFiles (installFunction config res fn r)) \<subseteq>
     set (skippedFiles r) \<union> {getFunctionsPath @ applyFilePrefix [fst fn] config}"
proof -
  let ?t = "getFunctionsPath @ applyPrefix config [fst fn]"
  let ?c = "find (\<lambda>c. path c = ?t) res"
  have t: "?t = getFunctionsPath @ applyFilePrefix [fst fn] config" by (simp add: applyPrefix_def)
  consider (skip) "isSkip ?c" | (existing) "\<not> isSkip ?c" "?t \<in> directories (disk r)" "\<not> isOverwrite ?c"
    | (copy) "\<not> isSkip ?c" "?t \<notin> directories (disk r) \<or> isOverwrite ?c"
    by blast
  then show ?thesis
  proof cases
    case skip
    show ?thesis unfolding installFunction_skip[OF skip] t by auto
  next
    case existing
    show ?thesis unfolding installFunction_existing[OF existing] t by auto
  next
    case copy
    let ?created = "if ?t \<notin> directories (disk r) \<and> \<not> isOverwrite ?c
            then createFunction (render (applyPrefix config [fst fn])) (disk r)
            else (Inr (render (applyPrefix config [fst fn])), disk r)"
    obtain res1 w1 where cr: "?created = (res1, w1)" by (cases ?created)
    show ?thesis
    proof (cases res1)
      case (Inl e)
      have "installFunction config res fn r = r\<lparr>disk := w1, errors := errors r @ [functionError (fst fn) e]\<rparr>"
        unfolding installFunction_copy[OF copy] cr using Inl by simp
      then show ?thesis by auto
    next
      case (Inr created)
      obtain e2 r2 where cp: "copyFunctionFiles ?t (snd fn) (r\<lparr>disk := w1\<rparr>) = (e2, r2)"
        by (cases "copyFunctionFiles ?t (snd fn) (r\<lparr>disk := w1\<rparr>)")
      have pt: "prefix getFunctionsPath ?t" by simp
      note cw = copyFunctionFiles_within[OF cp pt]
      note rec = copyFunctionFiles_recorded[OF cp]
      have eq: "installFunction config res fn r =
            (case e2 of None \<Rightarrow> r2 | Some e \<Rightarrow> r2\<lparr>errors := errors r2 @ [functionError (fst fn) e]\<rparr>)"
        unfolding installFunction_copy[OF copy] cr using Inr cp by (simp split: option.splits)
      have i: "installedFiles (installFunction config res fn r) = installedFiles r2"
        and s: "skippedFiles (installFunction config res fn r) = skippedFiles r"
        unfolding eq using cw by (cases e2; simp)+
      show ?thesis unfolding i s using rec unfolding t by auto
    qed
  qed
qed

lemma installFunctions_recorded:
  "set (installedFiles (installFunctions config res tpl r)) \<subseteq> set (installedFiles r) \<union>
     (\<Union>fn\<in>set (case functionDirs tpl of None \<Rightarrow> [] | Some dirs \<Rightarrow> dirs).
        (\<lambda>f. getFunctionsPath @ applyFilePrefix [fst fn] config @ fst f) ` set (snd fn)) \<and>
   set (skippedFiles (installFunctions config res tpl r)) \<subseteq> set (skippedFiles r) \<union>
     (\<lambda>fn. getFunctionsPath @ applyFilePrefix [fst fn] config) `
        set (case functionDirs tpl of None \<Rightarrow> [] | Some dirs \<Rightarrow> dirs)"
proof -
  let ?X = "\<lambda>fn. (\<lambda>f. getFunctionsPath @ applyFilePrefix [fst fn] config @ fst f) ` set (snd fn)"
  let ?t = "\<lambda>fn. getFunctionsPath @ applyFilePrefix [fst fn] config"
  have main: "set (installedFiles (foldl (\<lambda>r fn. installFunction config res fn r) r fs)) \<subseteq>
       set (installedFiles r) \<union> (\<Union>fn\<in>set fs. ?X fn) \<and>
     set (skippedFiles (foldl (\<lambda>r fn. installFunction config res fn r) r fs)) \<subseteq>
       set (skippedFiles r) \<union> ?t ` set fs" for fs
  proof (induct fs arbitrary: r)
    case Nil
    show ?case by simp
  next
    case (Cons f fs)
    let ?r1 = "installFunction config res f r"
    let ?r2 = "foldl (\<lambda>r fn. installFunction config res fn r) ?r1 fs"
    have h1: "set (installedFiles ?r2) \<subseteq> set (installedFiles ?r1) \<union> (\<Union>fn\<in>set fs. ?X fn)"
      and h2: "set (skippedFiles ?r2) \<subseteq> set (skippedFiles ?r1) \<union> ?t ` set fs"
      using Cons.hyps[of ?r1] by blast+
    have s1: "set (installedFiles ?r1) \<subseteq> set (installedFiles r) \<union> ?X f"
      and s2: "set (skippedFiles ?r1) \<subseteq> set (skippedFiles r) \<union> {?t f}"
      using installFunction_recorded[of config res f r] by blast+
    have i: "set (installedFiles ?r2) \<subseteq> set (installedFiles r) \<union> (?X f \<union> (\<Union>fn\<in>set fs. ?X fn))"
      using h1 s1 by blast
    have k: "set (skippedFiles ?r2) \<subseteq> set (skippedFiles r) \<union> insert (?t f) (?t ` set fs)"
      using h2 s2 by blast
    show ?case using i k by simp
  qed
  show ?thesis
  proof (cases "functionDirs tpl")
    case None
    then show ?thesis by (simp add: installFunctions_def)
  next
    case (Some dirs)
    have "installFunctions config res tpl r = foldl (\<lambda>r fn. installFunction config res fn r) r dirs"
      using Some by (simp add: installFunctions_def)
    then show ?thesis using main[of dirs] Some by simp
  qed
qed

lemma installMigration_call:
  "cliCalls (disk (installMigration config mf r)) =
     cliCalls (disk r) @
     (case snd mf of None \<Rightarrow> []
      | Some content \<Rightarrow> [MigrationNew (render (applyFilePrefix [basename (fst mf) ''.sql''] config))])"
proof (cases "snd mf")
  case None
  then show ?thesis by (simp add: installMigration_def)
next
  case (Some content)
  let ?n = "render (applyFilePrefix [basename (fst mf) ''.sql''] config)"
  obtain res1 w1 where cr: "createMigration ?n (disk r) = (res1, w1)" by (cases "createMigration ?n (disk r)")
  have c1: "cliCalls w1 = cliCalls (disk r) @ [MigrationNew ?n]"
    using cr by (auto simp: createMigration_def mkdirs_def Let_def split: if_splits)
  show ?thesis
  proof (cases res1)
    case (Inl e)
    then show ?thesis using Some cr c1 by (simp add: installMigration_def applyPrefix_def)
  next
    case (Inr newFile)
    show ?thesis
    proof (cases "writeFile (join getMigrationsPath newFile) content w1")
      case (Inl e)
      then show ?thesis using Some cr c1 Inr by (simp add: installMigration_def applyPrefix_def)
    next
      case w: (Inr w2)
      note we = writeFile_effect[OF w]
      show ?thesis using Some cr c1 Inr w we(3) by (simp add: installMigration_def applyPrefix_def)
    qed
  qed
qed

lemma installSchemas_recorded:
  assumes "installSchemas config res tpl r = (e, r')"
  shows "set (installedFiles r') \<subseteq> set (installedFiles r) \<union>
      (\<lambda>f. getTargetPath config ''schemas'' (fst f)) ` set (case schemas tpl of None \<Rightarrow> [] | Some schemaFiles \<Rightarrow> schemaFiles)"
    and "set (skippedFiles r') \<subseteq> set (skippedFiles r) \<union>
      (\<lambda>f. getTargetPath config ''schemas'' (fst f)) ` set (case schemas tpl of None \<Rightarrow> [] | Some schemaFiles \<Rightarrow> schemaFiles)"
proof -
  show "set (installedFiles r') \<subseteq> set (installedFiles r) \<union>
      (\<lambda>f. getTargetPath config ''schemas'' (fst f)) ` set (case schemas tpl of None \<Rightarrow> [] | Some schemaFiles \<Rightarrow> schemaFiles)"
  proof (cases "schemas tpl")
    case None
    then show ?thesis using assms by (simp add: installSchemas_def)
  next
    case (Some schemaFiles)
    then have "installSchemaFiles config res schemaFiles r = (e, r')" using assms by (simp add: installSchemas_def)
    from installSchemaFiles_recorded[OF this] show ?thesis using Some by simp
  qed
  show "set (skippedFiles r') \<subseteq> set (skippedFiles r) \<union>
      (\<lambda>f. getTargetPath config ''schemas'' (fst f)) ` set (case schemas tpl of None \<Rightarrow> [] | Some schemaFiles \<Rightarrow> schemaFiles)"
  proof (cases "schemas tpl")
    case None
    then show ?thesis using assms by (simp add: installSchemas_def)
  next
    case (Some schemaFiles)
    then have "installSchemaFiles config res schemaFiles r = (e, r')" using assms by (simp add: installSchemas_def)
    from installSchemaFiles_recorded[OF this] show ?thesis using Some by simp
  qed
qed

lemma later_stages_recorded:
  assumes "installSeeds sp f tpl (installFunctions config res tpl (installMigrations config tpl r1)) = (e, r4)"
  shows "set (installedFiles r4) \<subseteq> set (installedFiles r1) \<union> {q. prefix getMigrationsPath q} \<union>
      (\<Union>fn\<in>set (case functionDirs tpl of None \<Rightarrow> [] | Some dirs \<Rightarrow> dirs).
        (\<lambda>f. getFunctionsPath @ applyFilePrefix [fst fn] config @ fst f) ` set (snd fn)) \<union> {sp}"
    and "set (skippedFiles r4) \<subseteq> set (skippedFiles r1) \<union>
      (\<lambda>fn. getFunctionsPath @ applyFilePrefix [fst fn] config) `
        set (case functionDirs tpl of None \<Rightarrow> [] | Some dirs \<Rightarrow> dirs)"
proof -
  let ?r2 = "installMigrations config tpl r1"
  let ?r3 = "installFunctions config res tpl ?r2"
  have m: "stageWithin getMigrationsPath r1 ?r2" and ms: "skippedFiles ?r2 = skippedFiles r1"
    using installMigrations_within[of r1 config tpl] by blast+
  from m obtain added where a: "installedFiles ?r2 = installedFiles r1 @ added"
      "\<forall>p\<in>set added. prefix getMigrationsPath p"
    unfolding stageWithin_def by blast
  have i2: "set (installedFiles ?r2) \<subseteq> set (installedFiles r1) \<union> {q. prefix getMigrationsPath q}"
    unfolding a(1) using a(2) by auto
  note fr = installFunctions_recorded[of config res tpl ?r2]
  from installSeeds_result[OF assms]
  have i4: "set (installedFiles r4) \<subseteq> set (installedFiles ?r3) \<union> {sp}"
    and s4: "skippedFiles r4 = skippedFiles ?r3"
    by auto
  show "set (installedFiles r4) \<subseteq> set (installedFiles r1) \<union> {q. prefix getMigrationsPath q} \<union>
      (\<Union>fn\<in>set (case functionDirs tpl of None \<Rightarrow> [] | Some dirs \<Rightarrow> dirs).
        (\<lambda>f. getFunctionsPath @ applyFilePrefix [fst fn] config @ fst f) ` set (snd fn)) \<union> {sp}"
    using i4 i2 conjunct1[OF fr] by blast
  show "set (skippedFiles r4) \<subseteq> set (skippedFiles r1) \<union>
      (\<lambda>fn. getFunctionsPath @ applyFilePrefix [fst fn] config) `
        set (case functionDirs tpl of None \<Rightarrow> [] | Some dirs \<Rightarrow> dirs)"
    unfolding s4 using conjunct2[OF fr] unfolding ms .
qed

lemma installFeature_recorded:
  assumes "installFeature fs tpl sp now f res (config, w) = Inr (out, config', w')"
  shows "set (installedFiles out) \<subseteq>
      (\<lambda>f. getTargetPath config ''schemas'' (fst f)) ` set (case schemas tpl of None \<Rightarrow> [] | Some schemaFiles \<Rightarrow> schemaFiles) \<union>
      {q. prefix getMigrationsPath q} \<union>
      (\<Union>fn\<in>set (case functionDirs tpl of None \<Rightarrow> [] | Some dirs \<Rightarrow> dirs).
        (\<lambda>f. getFunctionsPath @ applyFilePrefix [fst fn] config @ fst f) ` set (snd fn)) \<union> {sp}"
    and "set (skippedFiles out) \<subseteq>
      (\<lambda>f. getTargetPath config ''schemas'' (fst f)) ` set (case schemas tpl of None \<Rightarrow> [] | Some schemaFiles \<Rightarrow> schemaFiles) \<union>
      (\<lambda>fn. getFunctionsPath @ applyFilePrefix [fst fn] config) `
        set (case functionDirs tpl of None \<Rightarrow> [] | Some dirs \<Rightarrow> dirs)"
proof -
  let ?S = "(\<lambda>f. getTargetPath config ''schemas'' (fst f)) ` set (case schemas tpl of None \<Rightarrow> [] | Some schemaFiles \<Rightarrow> schemaFiles)"
  let ?F = "(\<Union>fn\<in>set (case functionDirs tpl of None \<Rightarrow> [] | Some dirs \<Rightarrow> dirs).
        (\<lambda>f. getFunctionsPath @ applyFilePrefix [fst fn] config @ fst f) ` set (snd fn))"
  let ?D = "(\<lambda>fn. getFunctionsPath @ applyFilePrefix [fst fn] config) `
        set (case functionDirs tpl of None \<Rightarrow> [] | Some dirs \<Rightarrow> dirs)"
  let ?M = "{q. prefix getMigrationsPath q}"
  have "set (installedFiles out) \<subseteq> ?S \<union> ?M \<union> ?F \<union> {sp} \<and> set (skippedFiles out) \<subseteq> ?S \<union> ?D"
    using assms
  proof (cases rule: installFeature_cases)
    case (schemaFailed e r1)
    note s = installSchemas_recorded[OF schemaFailed(1)]
    have "installedFiles out = installedFiles r1" "skippedFiles out = skippedFiles r1"
      using schemaFailed(2) by (simp_all add: failure_def)
    then show ?thesis using s by (auto simp: initialRun_def)
  next
    case (seedFailed r1 e r4)
    note s = installSchemas_recorded[OF seedFailed(1)]
    note l = later_stages_recorded[OF seedFailed(2)]
    have o: "installedFiles out = installedFiles r4" "skippedFiles out = skippedFiles r4"
      using seedFailed(3) by (simp_all add: failure_def)
    have i1: "set (installedFiles r1) \<subseteq> ?S" and k1: "set (skippedFiles r1) \<subseteq> ?S"
      using s by (simp_all add: initialRun_def)
    have "set (installedFiles r4) \<subseteq> ?S \<union> ?M \<union> ?F \<union> {sp}" using l(1) i1 by blast
    moreover have "set (skippedFiles r4) \<subseteq> ?S \<union> ?D" using l(2) k1 by blast
    ultimately show ?thesis unfolding o by (rule conjI)
  next
    case (persistFailed r1 r4 e r5)
    note s = installSchemas_recorded[OF persistFailed(1)]
    note l = later_stages_recorded[OF persistFailed(2)]
    note u = updateInstalledFeatures_result[OF persistFailed(3)]
    have o: "installedFiles out = installedFiles r4" "skippedFiles out = skippedFiles r4"
      using persistFailed(4) u by (simp_all add: failure_def)
    have i1: "set (installedFiles r1) \<subseteq> ?S" and k1: "set (skippedFiles r1) \<subseteq> ?S"
      using s by (simp_all add: initialRun_def)
    have "set (installedFiles r4) \<subseteq> ?S \<union> ?M \<union> ?F \<union> {sp}" using l(1) i1 by blast
    moreover have "set (skippedFiles r4) \<subseteq> ?S \<union> ?D" using l(2) k1 by blast
    ultimately show ?thesis unfolding o by (rule conjI)
  next
    case (completed r1 r4 r5)
    note s = installSchemas_recorded[OF completed(1)]
    note l = later_stages_recorded[OF completed(2)]
    note u = updateInstalledFeatures_result[OF completed(3)]
    have o: "installedFiles out = installedFiles r4" "skippedFiles out = skippedFiles r4"
      using completed(4) u by simp_all
    have i1: "set (installedFiles r1) \<subseteq> ?S" and k1: "set (skippedFiles r1) \<subseteq> ?S"
      using s by (simp_all add: initialRun_def)
    have "set (installedFiles r4) \<subseteq> ?S \<union> ?M \<union> ?F \<union> {sp}" using l(1) i1 by blast
    moreover have "set (skippedFiles r4) \<subseteq> ?S \<union> ?D" using l(2) k1 by blast
    ultimately show ?thesis unfolding o by (rule conjI)
  qed
  then show "set (installedFiles out) \<subseteq> ?S \<union> ?M \<union> ?F \<union> {sp}" and "set (skippedFiles out) \<subseteq> ?S \<union> ?D"
    by blast+
qed

text \<open>
  C9, as stated, fails for the files of a function directory and for the shared seed file:
  with the prefix \<^verbatim>\<open>sb_\<close>, the schema file becomes \<^verbatim>\<open>sb_placeholder.sql\<close> and the function
  directory \<^verbatim>\<open>sb_foo\<close>, but the file copied into it is \<^verbatim>\<open>index.ts\<close> and the seed file is
  \<^verbatim>\<open>seed.sql\<close>, both without the prefix.
\<close>

theorem installFeature_unprefixed_artifacts_counterexample:
  "filePrefix sbConfig = Some ''sb_'' \<and>
   map_sum id fst (installFeature (features_of chainRegistry) prefixedFeature seedSql ''2024-09-07'' ''a''
       [\<lparr>path = [''supabase'', ''functions'', ''sb_foo''], exists = True, action = Some Overwrite\<rparr>]
       (sbConfig, existingFunctionWorld)) =
     Inr \<lparr>installedFiles = [[''supabase'', ''schemas'', ''sb_placeholder.sql''],
            [''supabase'', ''functions'', ''sb_foo'', ''index.ts''], [''supabase'', ''seed.sql'']],
          skippedFiles = [], errors = [], success = True\<rparr>"
  by (simp add: installer_defs features_of_def chainRegistry_def prefixedFeature_def fooFunction_def
      sbConfig_def seedSql_def existingFunctionWorld_def emptyWorld_def beginMarker_def Let_def)

text \<open>
  C9, amended. With a non-empty prefix, \<^verbatim>\<open>applyFilePrefix\<close> puts the prefix once in front of
  the last segment of the path it is given and leaves the directory and the extension as
  they are; without a prefix (or with an empty one) it returns the path. It is applied
  where a target is built from a template name: to the relative path of a schema file, to
  the name of a function directory, and to the base name of a migration file (without
  \<^verbatim>\<open>.sql\<close>) before that name is given to the scaffold tool. So every path that
  \<^verbatim>\<open>installFeature\<close> records is the prefixed target of a schema template, a file in the
  migrations directory, a template file under its own name inside the prefixed directory of
  a function (or that directory itself, when skipped), or the seed file, whose path is not
  prefixed.
\<close>

theorem installFeature_prefix_applied_once:
  "(filePrefix config = Some pre \<and> pre \<noteq> [] \<and> p \<noteq> [] \<longrightarrow>
      applyFilePrefix p config = butlast p @ [pre @ last p]) \<and>
   (filePrefix config = None \<or> filePrefix config = Some [] \<longrightarrow> applyFilePrefix p config = p) \<and>
   getTargetPath config type p = sourceDir config @ [type] @ applyFilePrefix p config \<and>
   cliCalls (disk (installMigration config mf r)) =
     cliCalls (disk r) @
     (case snd mf of None \<Rightarrow> []
      | Some content \<Rightarrow> [MigrationNew (render (applyFilePrefix [basename (fst mf) ''.sql''] config))]) \<and>
   (installFeature fs tpl sp now f res (config, w) = Inr (out, config', w') \<longrightarrow>
      (\<forall>q\<in>set (installedFiles out).
         (\<exists>schemaFiles rel. schemas tpl = Some schemaFiles \<and> rel \<in> fst ` set schemaFiles \<and>
            q = sourceDir config @ [''schemas''] @ applyFilePrefix rel config) \<or>
         prefix getMigrationsPath q \<or>
         (\<exists>dirs fn rel. functionDirs tpl = Some dirs \<and> fn \<in> set dirs \<and> rel \<in> fst ` set (snd fn) \<and>
            q = getFunctionsPath @ applyFilePrefix [fst fn] config @ rel) \<or>
         q = sp) \<and>
      (\<forall>q\<in>set (skippedFiles out).
         (\<exists>schemaFiles rel. schemas tpl = Some schemaFiles \<and> rel \<in> fst ` set schemaFiles \<and>
            q = sourceDir config @ [''schemas''] @ applyFilePrefix rel config) \<or>
         (\<exists>dirs fn. functionDirs tpl = Some dirs \<and> fn \<in> set dirs \<and>
            q = getFunctionsPath @ applyFilePrefix [fst fn] config)))"
proof -
  have A: "filePrefix config = Some pre \<and> pre \<noteq> [] \<and> p \<noteq> [] \<longrightarrow>
      applyFilePrefix p config = butlast p @ [pre @ last p]"
    using applyFilePrefix_some by blast
  have B: "filePrefix config = None \<or> filePrefix config = Some [] \<longrightarrow> applyFilePrefix p config = p"
    using applyFilePrefix_none by blast
  have C: "getTargetPath config type p = sourceDir config @ [type] @ applyFilePrefix p config"
    by (simp add: getTargetPath_def applyPrefix_def)
  note D = installMigration_call[of config mf r]
  let ?S = "\<lambda>q. \<exists>schemaFiles rel. schemas tpl = Some schemaFiles \<and> rel \<in> fst ` set schemaFiles \<and>
            q = sourceDir config @ [''schemas''] @ applyFilePrefix rel config"
  let ?F = "\<lambda>q. \<exists>dirs fn rel. functionDirs tpl = Some dirs \<and> fn \<in> set dirs \<and> rel \<in> fst ` set (snd fn) \<and>
            q = getFunctionsPath @ applyFilePrefix [fst fn] config @ rel"
  let ?D = "\<lambda>q. \<exists>dirs fn. functionDirs tpl = Some dirs \<and> fn \<in> set dirs \<and>
            q = getFunctionsPath @ applyFilePrefix [fst fn] config"
  have S: "?S q" if mem: "q \<in> (\<lambda>f. getTargetPath config ''schemas'' (fst f)) `
        set (case schemas tpl of None \<Rightarrow> [] | Some schemaFiles \<Rightarrow> schemaFiles)" for q
  proof (cases "schemas tpl")
    case None
    then show ?thesis using mem by simp
  next
    case (Some schemaFiles)
    then obtain tf where "tf \<in> set schemaFiles" "q = getTargetPath config ''schemas'' (fst tf)" using mem by auto
    then have "fst tf \<in> fst ` set schemaFiles \<and> q = sourceDir config @ [''schemas''] @ applyFilePrefix (fst tf) config"
      by (simp add: getTargetPath_def applyPrefix_def)
    then show ?thesis using Some by blast
  qed
  have F: "?F q" if mem: "q \<in> (\<Union>fn\<in>set (case functionDirs tpl of None \<Rightarrow> [] | Some dirs \<Rightarrow> dirs).
        (\<lambda>f. getFunctionsPath @ applyFilePrefix [fst fn] config @ fst f) ` set (snd fn))" for q
  proof (cases "functionDirs tpl")
    case None
    then show ?thesis using mem by simp
  next
    case (Some dirs)
    then obtain fn tf where "fn \<in> set dirs" "tf \<in> set (snd fn)"
        "q = getFunctionsPath @ applyFilePrefix [fst fn] config @ fst tf" using mem by auto
    then have "fn \<in> set dirs \<and> fst tf \<in> fst ` set (snd fn) \<and>
        q = getFunctionsPath @ applyFilePrefix [fst fn] config @ fst tf" by simp
    then show ?thesis using Some by blast
  qed
  have Dd: "?D q" if mem: "q \<in> (\<lambda>fn. getFunctionsPath @ applyFilePrefix [fst fn] config) `
        set (case functionDirs tpl of None \<Rightarrow> [] | Some dirs \<Rightarrow> dirs)" for q
  proof (cases "functionDirs tpl")
    case None
    then show ?thesis using mem by simp
  next
    case (Some dirs)
    then obtain fn where "fn \<in> set dirs \<and> q = getFunctionsPath @ applyFilePrefix [fst fn] config"
      using mem by auto
    then show ?thesis using Some by blast
  qed
  have E: "(\<forall>q\<in>set (installedFiles out). ?S q \<or> prefix getMigrationsPath q \<or> ?F q \<or> q = sp) \<and>
      (\<forall>q\<in>set (skippedFiles out). ?S q \<or> ?D q)"
    if run: "installFeature fs tpl sp now f res (config, w) = Inr (out, config', w')"
  proof -
    note rec = installFeature_recorded[OF run]
    have 1: "?S q \<or> prefix getMigrationsPath q \<or> ?F q \<or> q = sp" if "q \<in> set (installedFiles out)" for q
      using subsetD[OF rec(1) that] S[of q] F[of q] by blast
    have 2: "?S q \<or> ?D q" if "q \<in> set (skippedFiles out)" for q
      using subsetD[OF rec(2) that] S[of q] Dd[of q] by blast
    show ?thesis using 1 2 by blast
  qed
  show ?thesis using A B C D E by blast
qed

theorem installFeature_prefix_applied_once_witness:
  "applyFilePrefix [''sub'', ''foo.sql''] sbConfig = [''sub'', ''sb_foo.sql''] \<and>
   applyFilePrefix [''sub'', ''foo.sql''] plainConfig = [''sub'', ''foo.sql''] \<and>
   getTargetPath sbConfig ''schemas'' [''sub'', ''foo.sql''] = [''supabase'', ''schemas'', ''sub'', ''sb_foo.sql'']"
  using installFeature_prefix_applied_once[of sbConfig "''sb_''" "[''sub'', ''foo.sql'']" "''schemas''"]
    installFeature_prefix_applied_once[of plainConfig "''sb_''" "[''sub'', ''foo.sql'']" "''schemas''"]
  by (simp add: sbConfig_def plainConfig_def)

subsection \<open>Skipped and overwritten schema files\<close>

lemma installSchemaFiles_untouched:
  "installSchemaFiles config res fs r = (e, r') \<Longrightarrow>
   p \<notin> (\<lambda>g. getTargetPath config ''schemas'' (fst g)) ` set fs \<Longrightarrow>
   fileContent (disk r') p = fileContent (disk r) p"
proof (induct fs arbitrary: r)
  case Nil
  then show ?case by simp
next
  case (Cons f fs)
  obtain rel content where f: "f = (rel, content)" by (cases f)
  let ?t = "getTargetPath config ''schemas'' rel"
  have ne: "?t \<noteq> p" and rest: "p \<notin> (\<lambda>g. getTargetPath config ''schemas'' (fst g)) ` set fs"
    using Cons.prems(2) f by auto
  show ?case
  proof (cases "isSkip (find (\<lambda>c. path c = ?t) res)")
    case True
    let ?r1 = "r\<lparr>skippedFiles := skippedFiles r @ [?t]\<rparr>"
    have "installSchemaFiles config res fs ?r1 = (e, r')" using Cons.prems f True by simp
    from Cons.hyps[OF this rest] show ?thesis by simp
  next
    case False
    show ?thesis
    proof (cases "copyFile content ?t (disk r)")
      case (Inl msg)
      then have "r' = r" using Cons.prems f False by simp
      then show ?thesis by simp
    next
      case (Inr w)
      let ?r1 = "r\<lparr>disk := w, installedFiles := installedFiles r @ [?t]\<rparr>"
      have "installSchemaFiles config res fs ?r1 = (e, r')" using Cons.prems f False Inr by simp
      from Cons.hyps[OF this rest] copyFile_effect(1)[OF Inr] ne show ?thesis by auto
    qed
  qed
qed

lemma installSchemaFiles_complete:
  assumes "\<forall>g\<in>set fs. \<not> isSkip (find (\<lambda>c. path c = getTargetPath config ''schemas'' (fst g)) res) \<longrightarrow>
      snd g \<noteq> None \<and> getTargetPath config ''schemas'' (fst g) \<notin> unwritable (disk r)"
  shows "\<exists>r'. installSchemaFiles config res fs r = (None, r') \<and>
     (\<forall>g\<in>set fs. if isSkip (find (\<lambda>c. path c = getTargetPath config ''schemas'' (fst g)) res)
        then getTargetPath config ''schemas'' (fst g) \<in> set (skippedFiles r')
        else getTargetPath config ''schemas'' (fst g) \<in> set (installedFiles r')) \<and>
     (distinct (map (\<lambda>g. getTargetPath config ''schemas'' (fst g)) fs) \<longrightarrow>
        (\<forall>g\<in>set fs. \<not> isSkip (find (\<lambda>c. path c = getTargetPath config ''schemas'' (fst g)) res) \<longrightarrow>
           fileContent (disk r') (getTargetPath config ''schemas'' (fst g)) = snd g))"
  using assms
proof (induct fs arbitrary: r)
  case Nil
  then show ?case by simp
next
  case (Cons f fs)
  let ?T = "\<lambda>g. getTargetPath config ''schemas'' (fst g)"
  let ?skip = "\<lambda>g. isSkip (find (\<lambda>c. path c = ?T g) res)"
  obtain r1 where r1: "installSchemaFiles config res (f # fs) r = installSchemaFiles config res fs r1"
      "unwritable (disk r1) = unwritable (disk r)"
      "set (installedFiles r) \<subseteq> set (installedFiles r1)" "set (skippedFiles r) \<subseteq> set (skippedFiles r1)"
      "if ?skip f then ?T f \<in> set (skippedFiles r1) else ?T f \<in> set (installedFiles r1)"
      "\<not> ?skip f \<longrightarrow> fileContent (disk r1) (?T f) = snd f"
  proof (cases "?skip f")
    case True
    let ?r1 = "r\<lparr>skippedFiles := skippedFiles r @ [?T f]\<rparr>"
    have "installSchemaFiles config res (f # fs) r = installSchemaFiles config res fs ?r1"
      using True by (cases f) simp
    then show ?thesis using that[of ?r1] True by auto
  next
    case False
    then have "snd f \<noteq> None" "?T f \<notin> unwritable (disk r)" using Cons.prems by auto
    then obtain w where w: "copyFile (snd f) (?T f) (disk r) = Inr w"
      using copyFile_succeeds by blast
    note c = copyFile_effect[OF w]
    let ?r1 = "r\<lparr>disk := w, installedFiles := installedFiles r @ [?T f]\<rparr>"
    have "installSchemaFiles config res (f # fs) r = installSchemaFiles config res fs ?r1"
      using False w by (cases f) simp
    moreover have "unwritable (disk ?r1) = unwritable (disk r)" using c(2) by (simp add: sameEnvironment_def)
    moreover have "fileContent (disk ?r1) (?T f) = snd f" using c(1) by simp
    ultimately show ?thesis using that[of ?r1] False by auto
  qed
  have "\<forall>g\<in>set fs. \<not> ?skip g \<longrightarrow> snd g \<noteq> None \<and> ?T g \<notin> unwritable (disk r1)"
    using Cons.prems r1(2) by simp
  from Cons.hyps[OF this] obtain r' where r':
    "installSchemaFiles config res fs r1 = (None, r')"
    "\<forall>g\<in>set fs. if ?skip g then ?T g \<in> set (skippedFiles r') else ?T g \<in> set (installedFiles r')"
    "distinct (map ?T fs) \<longrightarrow> (\<forall>g\<in>set fs. \<not> ?skip g \<longrightarrow> fileContent (disk r') (?T g) = snd g)"
    by blast
  note rec = installSchemaFiles_within[OF r'(1)]
  have grow: "set (installedFiles r1) \<subseteq> set (installedFiles r')" "set (skippedFiles r1) \<subseteq> set (skippedFiles r')"
    using stageWithin_prefix(1,2)[OF rec] by (auto dest: set_mono_prefix)
  have 1: "installSchemaFiles config res (f # fs) r = (None, r')" using r1(1) r'(1) by simp
  have 2: "\<forall>g\<in>set (f # fs). if ?skip g then ?T g \<in> set (skippedFiles r') else ?T g \<in> set (installedFiles r')"
  proof
    fix g assume g: "g \<in> set (f # fs)"
    show "if ?skip g then ?T g \<in> set (skippedFiles r') else ?T g \<in> set (installedFiles r')"
    proof (cases "g \<in> set fs")
      case True
      then show ?thesis using r'(2) by blast
    next
      case False
      then have "g = f" using g by simp
      then show ?thesis using r1(5) grow by (auto split: if_splits)
    qed
  qed
  have 3: "\<forall>g\<in>set (f # fs). \<not> ?skip g \<longrightarrow> fileContent (disk r') (?T g) = snd g"
    if d: "distinct (map ?T (f # fs))"
  proof (intro ballI impI)
    fix g assume g: "g \<in> set (f # fs)" and ns: "\<not> ?skip g"
    show "fileContent (disk r') (?T g) = snd g"
    proof (cases "g \<in> set fs")
      case True
      then show ?thesis using r'(3) d ns by simp
    next
      case False
      then have gf: "g = f" using g by simp
      have "?T f \<notin> ?T ` set fs" using d by simp
      from installSchemaFiles_untouched[OF r'(1) this]
      have "fileContent (disk r') (?T f) = fileContent (disk r1) (?T f)" .
      then show ?thesis using r1(6) ns gf by simp
    qed
  qed
  show ?case using 1 2 3 by blast
qed

lemma later_stages_untouched:
  assumes run: "installSeeds sp f tpl (installFunctions config res tpl (installMigrations config tpl r1)) = (e, r4)"
    and m: "\<not> prefix getMigrationsPath t" and fn: "\<not> prefix getFunctionsPath t" and s: "\<not> prefix sp t"
  shows "fileContent (disk r4) t = fileContent (disk r1) t"
    and "t \<in> set (installedFiles r4) \<longleftrightarrow> t \<in> set (installedFiles r1)"
    and "t \<in> set (skippedFiles r4) \<longleftrightarrow> t \<in> set (skippedFiles r1)"
    and "unwritable (disk r4) = unwritable (disk r1)"
proof -
  let ?r2 = "installMigrations config tpl r1"
  let ?r3 = "installFunctions config res tpl ?r2"
  have a: "stageWithin getMigrationsPath r1 ?r2" using installMigrations_within by blast
  have b: "stageWithin getFunctionsPath ?r2 ?r3" by (rule installFunctions_within)
  have c: "stageWithin sp ?r3 r4" using installSeeds_within[OF run] .
  have step: "fileContent (disk y) t = fileContent (disk x) t \<and>
      (t \<in> set (installedFiles y) \<longleftrightarrow> t \<in> set (installedFiles x)) \<and>
      (t \<in> set (skippedFiles y) \<longleftrightarrow> t \<in> set (skippedFiles x)) \<and>
      unwritable (disk y) = unwritable (disk x)"
    if "stageWithin d x y" "\<not> prefix d t" for d x y
  proof -
    from that(1) obtain ai ak where
      fc: "\<forall>p. \<not> prefix d p \<longrightarrow> fileContent (disk y) p = fileContent (disk x) p"
      and i: "installedFiles y = installedFiles x @ ai" "\<forall>p\<in>set ai. prefix d p"
      and k: "skippedFiles y = skippedFiles x @ ak" "\<forall>p\<in>set ak. prefix d p"
      and env: "sameEnvironment (disk x) (disk y)"
      unfolding stageWithin_def by blast
    have "t \<notin> set ai" "t \<notin> set ak" using i(2) k(2) that(2) by blast+
    then show ?thesis using fc that(2) env unfolding i(1) k(1) sameEnvironment_def by simp
  qed
  note A = step[OF a m] and B = step[OF b fn] and C = step[OF c s]
  show "fileContent (disk r4) t = fileContent (disk r1) t" using A B C by simp
  show "t \<in> set (installedFiles r4) \<longleftrightarrow> t \<in> set (installedFiles r1)" using A B C by simp
  show "t \<in> set (skippedFiles r4) \<longleftrightarrow> t \<in> set (skippedFiles r1)" using A B C by simp
  show "unwritable (disk r4) = unwritable (disk r1)" using A B C by simp
qed

lemma installSchemaFiles_skipped_only:
  "installSchemaFiles config res fs r = (e, r') \<Longrightarrow> p \<in> set (skippedFiles r') \<Longrightarrow>
   p \<in> set (skippedFiles r) \<or> isSkip (find (\<lambda>c. path c = p) res)"
proof (induct fs arbitrary: r)
  case Nil
  then show ?case by simp
next
  case (Cons f fs)
  obtain rel content where f: "f = (rel, content)" by (cases f)
  let ?t = "getTargetPath config ''schemas'' rel"
  show ?case
  proof (cases "isSkip (find (\<lambda>c. path c = ?t) res)")
    case True
    let ?r1 = "r\<lparr>skippedFiles := skippedFiles r @ [?t]\<rparr>"
    have "installSchemaFiles config res fs ?r1 = (e, r')" using Cons.prems f True by simp
    from Cons.hyps[OF this Cons.prems(2)] show ?thesis using True by auto
  next
    case False
    show ?thesis
    proof (cases "copyFile content ?t (disk r)")
      case (Inl msg)
      then have "r' = r" using Cons.prems f False by simp
      then show ?thesis using Cons.prems(2) by simp
    next
      case (Inr w)
      let ?r1 = "r\<lparr>disk := w, installedFiles := installedFiles r @ [?t]\<rparr>"
      have "installSchemaFiles config res fs ?r1 = (e, r')" using Cons.prems f False Inr by simp
      from Cons.hyps[OF this Cons.prems(2)] show ?thesis by simp
    qed
  qed
qed

lemma installFeature_returns:
  assumes "map_of fs f \<noteq> None"
  shows "\<exists>out config' w'. installFeature fs tpl sp now f res (config, w) = Inr (out, config', w')"
proof -
  have "getProperty fs f \<noteq> Absent" using getProperty_known[OF assms] by auto
  then show ?thesis unfolding installFeature_def
    by (auto simp: Let_def split: option.splits prod.splits)
qed

lemma installFeature_after_schemas:
  assumes run: "installFeature fs tpl sp now f res (config, w) = Inr (out, config', w')"
    and s: "installSchemas config res tpl (initialRun w) = (None, r1)"
    and m: "\<not> prefix getMigrationsPath t" and fn: "\<not> prefix getFunctionsPath t" and sd: "\<not> prefix sp t"
  shows "fileContent w' t = fileContent (disk r1) t"
    and "t \<in> set (installedFiles out) \<longleftrightarrow> t \<in> set (installedFiles r1)"
    and "t \<in> set (skippedFiles out) \<longleftrightarrow> t \<in> set (skippedFiles r1)"
proof -
  have "fileContent w' t = fileContent (disk r1) t \<and>
      (t \<in> set (installedFiles out) \<longleftrightarrow> t \<in> set (installedFiles r1)) \<and>
      (t \<in> set (skippedFiles out) \<longleftrightarrow> t \<in> set (skippedFiles r1))"
    using run
  proof (cases rule: installFeature_cases)
    case (schemaFailed e r1')
    then show ?thesis using s by simp
  next
    case (seedFailed r1' e r4)
    then have eq: "r1' = r1" using s by simp
    note l = later_stages_untouched[OF seedFailed(2)[unfolded eq] m fn sd]
    show ?thesis using l seedFailed(3,5) by (simp add: failure_def)
  next
    case (persistFailed r1' r4 e r5)
    then have eq: "r1' = r1" using s by simp
    note l = later_stages_untouched[OF persistFailed(2)[unfolded eq] m fn sd]
    note u = updateInstalledFeatures_result[OF persistFailed(3)]
    show ?thesis using l u persistFailed(4,5) by (simp add: failure_def)
  next
    case (completed r1' r4 r5)
    then have eq: "r1' = r1" using s by simp
    note l = later_stages_untouched[OF completed(2)[unfolded eq] m fn sd]
    note u = updateInstalledFeatures_result[OF completed(3)]
    show ?thesis using l u completed(4,5) by simp
  qed
  then show "fileContent w' t = fileContent (disk r1) t"
    and "t \<in> set (installedFiles out) \<longleftrightarrow> t \<in> set (installedFiles r1)"
    and "t \<in> set (skippedFiles out) \<longleftrightarrow> t \<in> set (skippedFiles r1)"
    by blast+
qed

lemma chainRegistry_a: "map_of (features_of chainRegistry) ''a'' \<noteq> None"
  by (simp add: features_of_def chainRegistry_def)

text \<open>
  For a schema template file with target \<open>t\<close>, in an installation of a registered feature
  in which no copy of the schema stage fails (every template that is not skipped can be
  read and its target written): if the resolution of \<open>t\<close> is \<^verbatim>\<open>skip\<close>, then \<open>t\<close> is in
  \<^verbatim>\<open>skippedFiles\<close>, not in \<^verbatim>\<open>installedFiles\<close>, and the file at \<open>t\<close> is what it was before; if
  the resolution is \<^verbatim>\<open>overwrite\<close>, then \<open>t\<close> is in \<^verbatim>\<open>installedFiles\<close>, not in
  \<^verbatim>\<open>skippedFiles\<close>, and the file at \<open>t\<close> has the content of the template. The targets of the
  schema files are distinct, and \<open>t\<close> is not inside the migrations directory, the functions
  directory or the seed file, which the later stages write.
\<close>

theorem installFeature_schema_resolution:
  assumes reg: "map_of fs f \<noteq> None"
    and tpl: "schemas tpl = Some schemaFiles"
    and g: "g \<in> set schemaFiles"
    and t: "t = getTargetPath config ''schemas'' (fst g)"
    and copies: "\<forall>h\<in>set schemaFiles.
        \<not> isSkip (find (\<lambda>c. path c = getTargetPath config ''schemas'' (fst h)) res) \<longrightarrow>
        snd h \<noteq> None \<and> getTargetPath config ''schemas'' (fst h) \<notin> unwritable w"
    and d: "distinct (map (\<lambda>h. getTargetPath config ''schemas'' (fst h)) schemaFiles)"
    and layout: "\<not> prefix getMigrationsPath t" "\<not> prefix getFunctionsPath t" "\<not> prefix sp t"
  shows "\<exists>out config' w'. installFeature fs tpl sp now f res (config, w) = Inr (out, config', w') \<and>
     (isSkip (find (\<lambda>c. path c = t) res) \<longrightarrow>
        t \<in> set (skippedFiles out) \<and> t \<notin> set (installedFiles out) \<and> fileContent w' t = fileContent w t) \<and>
     (isOverwrite (find (\<lambda>c. path c = t) res) \<longrightarrow>
        t \<in> set (installedFiles out) \<and> t \<notin> set (skippedFiles out) \<and> fileContent w' t = snd g)"
proof -
  let ?T = "\<lambda>h. getTargetPath config ''schemas'' (fst h)"
  let ?c = "find (\<lambda>c. path c = t) res"
  from installFeature_returns[OF reg] obtain out config' w' where
    run: "installFeature fs tpl sp now f res (config, w) = Inr (out, config', w')" by blast
  have c0: "\<forall>h\<in>set schemaFiles. \<not> isSkip (find (\<lambda>c. path c = ?T h) res) \<longrightarrow>
      snd h \<noteq> None \<and> ?T h \<notin> unwritable (disk (initialRun w))"
    using copies by (simp add: initialRun_def)
  from installSchemaFiles_complete[OF c0] obtain r1 where r1:
    "installSchemaFiles config res schemaFiles (initialRun w) = (None, r1)"
    "\<forall>h\<in>set schemaFiles. if isSkip (find (\<lambda>c. path c = ?T h) res)
        then ?T h \<in> set (skippedFiles r1) else ?T h \<in> set (installedFiles r1)"
    "distinct (map ?T schemaFiles) \<longrightarrow>
       (\<forall>h\<in>set schemaFiles. \<not> isSkip (find (\<lambda>c. path c = ?T h) res) \<longrightarrow> fileContent (disk r1) (?T h) = snd h)"
    by blast
  have s: "installSchemas config res tpl (initialRun w) = (None, r1)"
    using r1(1) tpl by (simp add: installSchemas_def)
  note after = installFeature_after_schemas[OF run s layout]
  have skip: "t \<in> set (skippedFiles out) \<and> t \<notin> set (installedFiles out) \<and> fileContent w' t = fileContent w t"
    if sk: "isSkip ?c"
  proof -
    have 1: "t \<in> set (skippedFiles r1)" using r1(2) g sk t by auto
    from installSchemaFiles_skip_untouched[OF r1(1) sk]
    have 2: "fileContent (disk r1) t = fileContent w t" and 3: "t \<notin> set (installedFiles r1)"
      by (simp_all add: initialRun_def)
    show ?thesis using 1 2 3 after by simp
  qed
  have over: "t \<in> set (installedFiles out) \<and> t \<notin> set (skippedFiles out) \<and> fileContent w' t = snd g"
    if ow: "isOverwrite ?c"
  proof -
    have ns: "\<not> isSkip ?c" using ow by (auto simp: isSkip_def isOverwrite_def split: option.splits)
    have 1: "t \<in> set (installedFiles r1)" using r1(2) g ns t by auto
    have 2: "fileContent (disk r1) t = snd g" using r1(3) d g ns t by auto
    have 3: "t \<notin> set (skippedFiles r1)"
      using installSchemaFiles_skipped_only[OF r1(1), of t] ns by (auto simp: initialRun_def)
    show ?thesis using 1 2 3 after by simp
  qed
  show ?thesis using run skip over by blast
qed

theorem installFeature_schema_resolution_witness:
  "fileContent conflictingWorld [''supabase'', ''schemas'', ''placeholder.sql''] = Some ''create schema mine;'' \<and>
   (\<exists>out config' w'.
      installFeature (features_of chainRegistry) oneSchema seedSql ''2024-09-07'' ''a'' skipResolution
        (plainConfig, conflictingWorld) = Inr (out, config', w') \<and>
      [''supabase'', ''schemas'', ''placeholder.sql''] \<in> set (skippedFiles out) \<and>
      [''supabase'', ''schemas'', ''placeholder.sql''] \<notin> set (installedFiles out) \<and>
      fileContent w' [''supabase'', ''schemas'', ''placeholder.sql''] = Some ''create schema mine;'') \<and>
   (\<exists>out config' w'.
      installFeature (features_of chainRegistry) oneSchema seedSql ''2024-09-07'' ''a'' overwriteResolution
        (plainConfig, conflictingWorld) = Inr (out, config', w') \<and>
      [''supabase'', ''schemas'', ''placeholder.sql''] \<in> set (installedFiles out) \<and>
      [''supabase'', ''schemas'', ''placeholder.sql''] \<notin> set (skippedFiles out) \<and>
      fileContent w' [''supabase'', ''schemas'', ''placeholder.sql''] = Some ''create schema theirs;'')"
proof -
  let ?g = "([''placeholder.sql''], Some ''create schema theirs;'')"
  let ?t = "[''supabase'', ''schemas'', ''placeholder.sql'']"
  have tpl: "schemas oneSchema = Some [?g]" by (simp add: oneSchema_def)
  have g: "?g \<in> set [?g]" by simp
  have t: "?t = getTargetPath plainConfig ''schemas'' (fst ?g)"
    by (simp add: getTargetPath_def applyPrefix_def applyFilePrefix_def plainConfig_def)
  have copies: "\<forall>h\<in>set [?g].
        \<not> isSkip (find (\<lambda>c. path c = getTargetPath plainConfig ''schemas'' (fst h)) res) \<longrightarrow>
        snd h \<noteq> None \<and> getTargetPath plainConfig ''schemas'' (fst h) \<notin> unwritable conflictingWorld" for res
    by (simp add: conflictingWorld_def emptyWorld_def)
  have d: "distinct (map (\<lambda>h. getTargetPath plainConfig ''schemas'' (fst h)) [?g])" by simp
  have layout: "\<not> prefix getMigrationsPath ?t" "\<not> prefix getFunctionsPath ?t" "\<not> prefix seedSql ?t"
    by (simp_all add: getMigrationsPath_def getFunctionsPath_def seedSql_def)
  have sk: "isSkip (find (\<lambda>c. path c = ?t) skipResolution)"
    by (simp add: skipResolution_def isSkip_def)
  have ow: "isOverwrite (find (\<lambda>c. path c = ?t) overwriteResolution)"
    by (simp add: overwriteResolution_def isOverwrite_def)
  have pre: "fileContent conflictingWorld ?t = Some ''create schema mine;''"
    by (simp add: conflictingWorld_def)
  from installFeature_schema_resolution[OF chainRegistry_a tpl g t copies d layout,
      of "''2024-09-07''" skipResolution] sk pre
  have A: "\<exists>out config' w'.
      installFeature (features_of chainRegistry) oneSchema seedSql ''2024-09-07'' ''a'' skipResolution
        (plainConfig, conflictingWorld) = Inr (out, config', w') \<and>
      ?t \<in> set (skippedFiles out) \<and> ?t \<notin> set (installedFiles out) \<and>
      fileContent w' ?t = Some ''create schema mine;''"
    by auto
  from installFeature_schema_resolution[OF chainRegistry_a tpl g t copies d layout,
      of "''2024-09-07''" overwriteResolution] ow
  have B: "\<exists>out config' w'.
      installFeature (features_of chainRegistry) oneSchema seedSql ''2024-09-07'' ''a'' overwriteResolution
        (plainConfig, conflictingWorld) = Inr (out, config', w') \<and>
      ?t \<in> set (installedFiles out) \<and> ?t \<notin> set (skippedFiles out) \<and>
      fileContent w' ?t = Some ''create schema theirs;''"
    by auto
  show ?thesis using pre A B by blast
qed

text \<open>
  C8. The claim says that a schema file whose target exists and whose resolution is
  \<^verbatim>\<open>skip\<close> is recorded in \<^verbatim>\<open>skippedFiles\<close>. When the copy of an earlier schema file fails, the
  exception leaves the loop of the schema stage, which has no \<^verbatim>\<open>try\<close> block: with the schema
  files \<^verbatim>\<open>a.sql\<close> and \<^verbatim>\<open>b.sql\<close>, where the target of \<^verbatim>\<open>a.sql\<close> cannot be written and the
  existing \<^verbatim>\<open>b.sql\<close> is to be skipped, \<^verbatim>\<open>skippedFiles\<close> is empty in the outcome.
\<close>

theorem installFeature_skip_unrecorded_after_failure:
  "fileContent readOnlyWithExisting [''supabase'', ''schemas'', ''b.sql''] = Some ''create schema mine;'' \<and>
   isSkip (find (\<lambda>c. path c = [''supabase'', ''schemas'', ''b.sql'']) skipSecondSchema) \<and>
   installFeature (features_of chainRegistry) twoSchemas seedSql ''2024-09-07'' ''a'' skipSecondSchema
     (plainConfig, readOnlyWithExisting) =
   Inr (\<lparr>installedFiles = [], skippedFiles = [],
          errors = [copyError (writeError [''supabase'', ''schemas'', ''a.sql''])], success = False\<rparr>,
        plainConfig, readOnlyWithExisting)"
  by (simp add: installer_defs features_of_def chainRegistry_def twoSchemas_def plainConfig_def
      skipSecondSchema_def readOnlyWithExisting_def readOnlySchemaWorld_def emptyWorld_def Let_def)

subsection \<open>Installing a feature twice\<close>


















end
